theory Spec2Isabelle
  imports Complex_Main "HOL-Library.Sublist" "HOL-Library.List_Lexorder"
begin

section \<open>The WCSP-as-constraint subsystem (tb2globalwcsp.hpp)\<close>

text \<open>
  Costs are the solver's signed integer type \<^verbatim>\<open>Cost\<close>; they are modelled as
  unbounded integers (signed overflow is undefined in the source and is not modelled).
  A problem (\<^verbatim>\<open>WCSP*\<close>) is identified by its unique integer index, a meta-constraint
  (\<^verbatim>\<open>WeightedCSPConstraint*\<close>) by a natural number standing for its address, a master
  variable by its index in the master problem.
\<close>

type_synonym cost = int

definition MIN_COST :: cost where
  \<comment> \<open>Modelled from the spec: the constant is declared outside the given sources; costs are
      non-negative integers and the source's own comment at its use reads "set it to zero".\<close>
  "MIN_COST = 0"

definition UNIT_COST :: cost where
  \<comment> \<open>Modelled from the spec: declared outside the given sources; the unit weight of a clause.\<close>
  "UNIT_COST = 1"

definition NARYPROJECTIONSIZE :: int where
  \<comment> \<open>Modelled from the spec: declared outside the given sources; tables of arity 1, 2, 3 are
      full tables, arity 4 and more is n-ary.\<close>
  "NARYPROJECTIONSIZE = 3"

datatype exn = Contradiction | WrongFileFormat | Crash

datatype outcome = Ok | Raised exn

subsection \<open>The protection guard\<close>

text \<open>
  The ten preprocessing options that \<^verbatim>\<open>protect\<close> switches off. The same record type
  holds the live options (\<^verbatim>\<open>ToulBar2::...\<close>) and the copies saved in the static members
  of \<^verbatim>\<open>WeightedCSPConstraint\<close>. The two members whose names end in an underscore in the
  source carry the suffix \<open>_u\<close> here.
\<close>

record flags =
  preprocessFunctional :: int
  elimDegree :: int
  elimDegree_preprocessing :: int
  elimDegree_u :: int
  elimDegree_preprocessing_u :: int
  DEE :: int
  DEE_u :: int
  FullEAC :: bool
  RASPS :: bool
  useRASPS :: int

definition disabled_flags :: flags where
  "disabled_flags =
     \<lparr>preprocessFunctional = 0, elimDegree = -1, elimDegree_preprocessing = -1,
      elimDegree_u = -1, elimDegree_preprocessing_u = -1, DEE = 0, DEE_u = 0,
      FullEAC = False, RASPS = False, useRASPS = 0\<rparr>"

text \<open>The four event hooks \<^verbatim>\<open>ToulBar2::setvalue\<close>, \<^verbatim>\<open>removevalue\<close>, \<^verbatim>\<open>setmin\<close>,
  \<^verbatim>\<open>setmax\<close>: \<open>True\<close> when the hook points at the channelling callback, \<open>False\<close> when it
  is \<^verbatim>\<open>NULL\<close>.\<close>

record hooks =
  h_setvalue :: bool
  h_removevalue :: bool
  h_setmin :: bool
  h_setmax :: bool

definition hooks_installed :: hooks where
  "hooks_installed = \<lparr>h_setvalue = True, h_removevalue = True, h_setmin = True, h_setmax = True\<rparr>"

definition hooks_null :: hooks where
  "hooks_null = \<lparr>h_setvalue = False, h_removevalue = False, h_setmin = False, h_setmax = False\<rparr>"

subsection \<open>State\<close>

text \<open>
  The backtrackable data that the meta-constraint reads and writes: every problem's
  current lower bound, the counter \<^verbatim>\<open>nonassigned\<close> of every meta-constraint, the links of
  every meta-constraint to its scope variables (\<open>True\<close>: still connected), and of every
  master variable whether it is unassigned and its degree.
\<close>

record bt =
  lbs :: "int \<Rightarrow> cost"
  nonassigned :: "nat \<Rightarrow> int"
  links :: "nat \<Rightarrow> bool list"
  unassigned :: "nat \<Rightarrow> bool"
  degree :: "nat \<Rightarrow> int"

datatype vop = Assign | Remove | Increase | Decrease

text \<open>
  Calls into code that is outside the given sources (the solver's hook, variable
  operations, the problems' own propagation, the constraint base class). Each call is
  recorded in the trace, in the order in which it is made.
\<close>

datatype call =
    SolverSetvalue int nat int
  | VarOp int nat vop int
  | EnforceUb int
  | Revise nat
  | Assigns nat
  | Propagate int
  | AssignLS int "nat list" "int list"
  | ProjectNary nat

record gstate =
  is_protected :: bool
  tb2 :: flags
  saved :: flags
  installed :: hooks
  active :: "int \<Rightarrow> bool"
  wub :: "int \<Rightarrow> cost"
  cur :: bt
  trail :: "bt list"
  trace :: "call list"

text \<open>
  The environment: what the called code does. \<open>ext\<close> is any operation that may raise,
  \<open>whenContradiction\<close> the problems' cleanup routine (called inside handlers),
  \<open>toValue\<close> the value of a variable at a domain index.
\<close>

record env =
  ext :: "call \<Rightarrow> gstate \<Rightarrow> outcome \<times> gstate"
  whenContradiction :: "int \<Rightarrow> gstate \<Rightarrow> gstate"
  toValue :: "nat \<Rightarrow> nat \<Rightarrow> int"

text \<open>A call into the environment, recorded. The trace is written here only: what the
  called code does in turn is not recorded, so the trace of a function is the list of the
  calls that the function itself makes.\<close>

definition callx :: "env \<Rightarrow> call \<Rightarrow> gstate \<Rightarrow> outcome \<times> gstate" where
  "callx e c s = (case ext e c s of (r, s') \<Rightarrow> (r, s'\<lparr>trace := trace s @ [c]\<rparr>))"

text \<open>\<^verbatim>\<open>whenContradiction()\<close> of a problem. Like the trace's other writers it leaves the
  trace as it is.\<close>

definition cleanupx :: "env \<Rightarrow> int \<Rightarrow> gstate \<Rightarrow> gstate" where
  "cleanupx e w s = (whenContradiction e w s)\<lparr>trace := trace s\<rparr>"

text \<open>Sequencing: the next statement runs only after a normal return. A handler
  \<^verbatim>\<open>catch (const Contradiction&)\<close> runs only for that exception.\<close>

definition andthen :: "outcome \<times> gstate \<Rightarrow> (gstate \<Rightarrow> outcome \<times> gstate) \<Rightarrow> outcome \<times> gstate" where
  "andthen r f = (case r of (Ok, s) \<Rightarrow> f s | (Raised x, s) \<Rightarrow> (Raised x, s))"

definition catch_contradiction ::
  "outcome \<times> gstate \<Rightarrow> (gstate \<Rightarrow> outcome \<times> gstate) \<Rightarrow> outcome \<times> gstate" where
  "catch_contradiction r h =
     (case r of (Raised Contradiction, s) \<Rightarrow> h s | (Raised x, s) \<Rightarrow> (Raised x, s) | (Ok, s) \<Rightarrow> (Ok, s))"

subsection \<open>The meta-constraint\<close>

record wcsp =
  getIndex :: int
  getNegativeLb :: cost
  wcsp_isfinite :: bool

record wctr =
  cid :: nat
  isfinite :: bool
  strongDuality :: bool
  lb :: cost
  ub :: cost
  negCost :: cost
  problem :: "int option"
  negproblem :: "int option"
  scope :: "nat list"

record statics =
  MasterWeightedCSP :: "int option"
  WeightedCSPConstraints :: "(int \<times> wctr) list"

definition statics_init :: statics where
  "statics_init = \<lparr>MasterWeightedCSP = None, WeightedCSPConstraints = []\<rparr>"

text \<open>\<^verbatim>\<open>WeightedCSPConstraints[k] = v\<close> on a \<^verbatim>\<open>std::map<int, ...>\<close>: the entries are kept
  in ascending key order, one per key.\<close>

fun map_assign :: "int \<Rightarrow> 'a \<Rightarrow> (int \<times> 'a) list \<Rightarrow> (int \<times> 'a) list" where
  "map_assign k v [] = [(k, v)]"
| "map_assign k v ((k', v') # rest) =
     (if k < k' then (k, v) # (k', v') # rest
      else if k = k' then (k, v) # rest
      else (k', v') # map_assign k v rest)"

definition getLb :: "int \<Rightarrow> gstate \<Rightarrow> cost" where
  "getLb w s = lbs (cur s) w"

definition updateUb :: "int \<Rightarrow> cost \<Rightarrow> gstate \<Rightarrow> gstate" where
  \<comment> \<open>Modelled from the spec: \<^verbatim>\<open>WCSP::updateUb\<close> is outside the given sources; the bound is
      clamped to at most the existing one, and \<^verbatim>\<open>updateUb(ub)\<close> is a no-op.\<close>
  "updateUb w b s = s\<lparr>wub := (wub s)(w := min (wub s w) b)\<rparr>"

definition deactivatePropagate :: "int \<Rightarrow> gstate \<Rightarrow> gstate" where
  \<comment> \<open>Modelled from the spec: outside the given sources; disables propagation in the problem.\<close>
  "deactivatePropagate w s = s\<lparr>active := (active s)(w := False)\<rparr>"

definition reactivatePropagate :: "int \<Rightarrow> gstate \<Rightarrow> gstate" where
  \<comment> \<open>Modelled from the spec: outside the given sources; re-enables propagation in the problem.\<close>
  "reactivatePropagate w s = s\<lparr>active := (active s)(w := True)\<rparr>"

definition isactivatePropagate :: "int \<Rightarrow> gstate \<Rightarrow> bool" where
  "isactivatePropagate w s = active s w"

text \<open>
  The constructor. An assertion of the source is a contract on the caller and is not a
  branch of the model. The constructor of the base class connects the constraint to the
  variables of its scope; the member initialisers set \<^verbatim>\<open>nonassigned\<close> to the arity. The
  comparison of the bounds comes next and throws before anything is registered. The table
  holds pointers to the object; the model stores the object's fields as they are when the
  constructor returns. The vectors \<^verbatim>\<open>varIndexes\<close> (always \<open>[0, 1, ...]\<close>),
  \<^verbatim>\<open>newValues\<close> (a scratch buffer that \<^verbatim>\<open>eval\<close> overwrites) and \<^verbatim>\<open>conflictWeights\<close>
  and the solver handle are not part of the state modelled here.
\<close>

definition register_slave ::
  "env \<Rightarrow> wcsp option \<Rightarrow> cost \<Rightarrow> gstate \<Rightarrow> outcome \<times> gstate" where
  "register_slave e p bound s =
     (case p of
        None \<Rightarrow> (Ok, s)
      | Some w \<Rightarrow> callx e (EnforceUb (getIndex w)) (updateUb (getIndex w) bound s))"

text \<open>The fields of the constructed object: \<open>negCost\<close> is the sum of the slaves' shifts,
  \<open>isfinite\<close> is cleared when a slave is not finite and \<open>duplicateHard\<close> is not set.\<close>

definition new_constraint ::
  "nat \<Rightarrow> nat list \<Rightarrow> wcsp option \<Rightarrow> wcsp option \<Rightarrow> cost \<Rightarrow> cost \<Rightarrow> bool \<Rightarrow> bool \<Rightarrow> wctr" where
  "new_constraint this scope_in problem_in negproblem_in lb_in ub_in duplicateHard strongDuality_in =
     (let nc1 = (case problem_in of None \<Rightarrow> MIN_COST | Some p \<Rightarrow> MIN_COST + getNegativeLb p);
          fin1 = (case problem_in of None \<Rightarrow> True
                  | Some p \<Rightarrow> (if \<not> duplicateHard \<and> \<not> wcsp_isfinite p then False else True));
          nc2 = (case negproblem_in of None \<Rightarrow> nc1 | Some n \<Rightarrow> nc1 + getNegativeLb n);
          fin2 = (case negproblem_in of None \<Rightarrow> fin1
                  | Some n \<Rightarrow> (if \<not> duplicateHard \<and> \<not> wcsp_isfinite n then False else fin1))
      in \<lparr>cid = this, isfinite = fin2, strongDuality = strongDuality_in, lb = lb_in,
           ub = ub_in, negCost = nc2, problem = map_option getIndex problem_in,
           negproblem = map_option getIndex negproblem_in, scope = scope_in\<rparr>)"

text \<open>The two assignments \<^verbatim>\<open>WeightedCSPConstraints[...->getIndex()] = this\<close>.\<close>

definition register_keys ::
  "wctr \<Rightarrow> wcsp option \<Rightarrow> wcsp option \<Rightarrow> (int \<times> wctr) list \<Rightarrow> (int \<times> wctr) list" where
  "register_keys c problem_in negproblem_in tbl =
     (let tbl1 = (case problem_in of None \<Rightarrow> tbl | Some p \<Rightarrow> map_assign (getIndex p) c tbl)
      in (case negproblem_in of None \<Rightarrow> tbl1 | Some n \<Rightarrow> map_assign (getIndex n) c tbl1))"

definition WeightedCSPConstraint ::
  "env \<Rightarrow> statics \<Rightarrow> nat \<Rightarrow> int \<Rightarrow> nat list \<Rightarrow> wcsp option \<Rightarrow> wcsp option \<Rightarrow> cost \<Rightarrow> cost
     \<Rightarrow> bool \<Rightarrow> bool \<Rightarrow> gstate \<Rightarrow> exn + (wctr \<times> statics \<times> gstate)" where
  "WeightedCSPConstraint e st this w scope_in problem_in negproblem_in lb_in ub_in
       duplicateHard strongDuality_in s =
     (if lb_in \<ge> ub_in then Inl WrongFileFormat
      else
        let s0 = s\<lparr>cur := (cur s)\<lparr>nonassigned := (nonassigned (cur s))(this := int (length scope_in)),
                                   links := (links (cur s))(this := replicate (length scope_in) True)\<rparr>,
                   installed := hooks_installed\<rparr>;
            tbl0 = (if MasterWeightedCSP st \<noteq> None \<and> MasterWeightedCSP st \<noteq> Some w
                    then [] else WeightedCSPConstraints st);
            c = new_constraint this scope_in problem_in negproblem_in lb_in ub_in
                  duplicateHard strongDuality_in
        in (case register_slave e problem_in ub_in s0 of
              (Raised x, s1) \<Rightarrow> Inl x
            | (Ok, s1) \<Rightarrow>
                (case register_slave e negproblem_in (- lb_in + negCost c + UNIT_COST) s1 of
                   (Raised x, s2) \<Rightarrow> Inl x
                 | (Ok, s2) \<Rightarrow>
                     Inr (c, \<lparr>MasterWeightedCSP = Some w,
                              WeightedCSPConstraints = register_keys c problem_in negproblem_in tbl0\<rparr>,
                          s2))))"

text \<open>\<^verbatim>\<open>universal()\<close>: the conjunction of the source, evaluated left to right.\<close>

definition universal :: "wctr \<Rightarrow> gstate \<Rightarrow> bool" where
  "universal c s =
     (if isfinite c then
        (case problem c of
           None \<Rightarrow> False
         | Some p \<Rightarrow>
             (case negproblem c of
                None \<Rightarrow> False
              | Some n \<Rightarrow> getLb p s \<ge> lb c \<and> getLb n s > - ub c + negCost c))
      else False)"

subsection \<open>Protecting and unprotecting\<close>

text \<open>\<^verbatim>\<open>protect(master)\<close> saves the ten live options when \<open>master\<close> is set, then raises
  the flag and switches the options off. \<^verbatim>\<open>unprotect()\<close> acts only when the flag is up.\<close>

definition protect :: "bool \<Rightarrow> gstate \<Rightarrow> gstate" where
  "protect master s =
     (let s1 = (if master then s\<lparr>saved := tb2 s\<rparr> else s)
      in s1\<lparr>is_protected := True, tb2 := disabled_flags\<rparr>)"

definition unprotect :: "gstate \<Rightarrow> gstate" where
  "unprotect s = (if is_protected s then s\<lparr>is_protected := False, tb2 := saved s\<rparr> else s)"

subsection \<open>Links of the constraint to its scope\<close>

definition connected_at :: "wctr \<Rightarrow> nat \<Rightarrow> gstate \<Rightarrow> bool" where
  \<comment> \<open>Modelled from the spec: \<^verbatim>\<open>connected(i)\<close> of the base class is outside the given sources.\<close>
  "connected_at c i s =
     (i < length (scope c) \<and> i < length (links (cur s) (cid c)) \<and> links (cur s) (cid c) ! i)"

definition is_connected :: "wctr \<Rightarrow> gstate \<Rightarrow> bool" where
  \<comment> \<open>Modelled from the spec: \<^verbatim>\<open>connected()\<close> of the base class is outside the given sources;
      the constraint is connected while a link to some scope variable is.\<close>
  "is_connected c s = list_ex (\<lambda>i. connected_at c i s) [0..<length (scope c)]"

definition deconnect_at :: "wctr \<Rightarrow> nat \<Rightarrow> gstate \<Rightarrow> gstate" where
  \<comment> \<open>Modelled from the spec: \<^verbatim>\<open>deconnect(i)\<close> of the base class is outside the given sources;
      deconnection removes the constraint from the variable's active constraints, so the
      variable's degree drops by one.\<close>
  "deconnect_at c i s =
     (if connected_at c i s
      then s\<lparr>cur := (cur s)\<lparr>links := (links (cur s))(cid c := (links (cur s) (cid c))[i := False]),
                            degree := (degree (cur s))(scope c ! i := degree (cur s) (scope c ! i) - 1)\<rparr>\<rparr>
      else s)"

definition deconnect :: "wctr \<Rightarrow> gstate \<Rightarrow> gstate" where
  \<comment> \<open>Modelled from the spec: \<^verbatim>\<open>deconnect()\<close> of the base class deconnects every position.\<close>
  "deconnect c s = fold (deconnect_at c) [0..<length (scope c)] s"

definition canbeDeconnected :: "wctr \<Rightarrow> gstate \<Rightarrow> bool" where
  "canbeDeconnected c s =
     list_all (\<lambda>v. \<not> (unassigned (cur s) v \<and> degree (cur s) v > 1)) (scope c)"

subsection \<open>The store\<close>

text \<open>Modelled from the spec: the store is outside the given sources; it is a stack with
  \<^verbatim>\<open>store()\<close>/\<^verbatim>\<open>restore(depth)\<close> bracket semantics over the backtrackable data.\<close>

definition getDepth :: "gstate \<Rightarrow> nat" where
  "getDepth s = length (trail s)"

definition store :: "gstate \<Rightarrow> gstate" where
  "store s = s\<lparr>trail := cur s # trail s\<rparr>"

fun pop_to :: "nat \<Rightarrow> bt \<Rightarrow> bt list \<Rightarrow> bt \<times> bt list" where
  "pop_to d c [] = (c, [])"
| "pop_to d c (b # bs) = (if d < Suc (length bs) then pop_to d b bs else (c, b # bs))"

definition restore :: "nat \<Rightarrow> gstate \<Rightarrow> gstate" where
  "restore d s = (case pop_to d (cur s) (trail s) of (c, t) \<Rightarrow> s\<lparr>cur := c, trail := t\<rparr>)"

subsection \<open>eval\<close>

text \<open>
  One branch of the \<^verbatim>\<open>try\<close> block of \<^verbatim>\<open>eval\<close>, for the slave \<open>p\<close>: the result carries
  the activation status read before \<^verbatim>\<open>reactivatePropagate\<close> (\<open>True\<close>, the initial value
  of the local, when the read is not reached) and the local \<^verbatim>\<open>unsat\<close>.
\<close>

definition eval_slave ::
  "env \<Rightarrow> int \<Rightarrow> (cost \<Rightarrow> bool) \<Rightarrow> nat list \<Rightarrow> int list \<Rightarrow> gstate
     \<Rightarrow> outcome \<times> bool \<times> bool \<times> gstate" where
  "eval_slave e p violated idxs vals s =
     (case callx e (EnforceUb p) s of
        (Raised x, s1) \<Rightarrow> (Raised x, True, False, s1)
      | (Ok, s1) \<Rightarrow>
          (let a = isactivatePropagate p s1; s2 = reactivatePropagate p s1
           in (case callx e (AssignLS p idxs vals) s2 of
                 (Raised x, s3) \<Rightarrow> (Raised x, a, False, s3)
               | (Ok, s3) \<Rightarrow> (Ok, a, violated (getLb p s3), s3))))"

definition cleanup_slaves :: "env \<Rightarrow> wctr \<Rightarrow> gstate \<Rightarrow> gstate" where
  "cleanup_slaves e c s =
     (let s1 = (case problem c of None \<Rightarrow> s | Some p \<Rightarrow> cleanupx e p s)
      in (case negproblem c of None \<Rightarrow> s1 | Some n \<Rightarrow> cleanupx e n s1))"

definition eval_finish ::
  "cost \<Rightarrow> wctr \<Rightarrow> nat \<Rightarrow> bool \<Rightarrow> bool \<Rightarrow> bool \<Rightarrow> gstate \<Rightarrow> cost \<times> gstate" where
  "eval_finish maxc c depth problemActive negproblemActive unsat s =
     (let s1 = restore depth s;
          s2 = (if \<not> problemActive
                then (case problem c of None \<Rightarrow> s1 | Some p \<Rightarrow> deactivatePropagate p s1) else s1);
          s3 = (if \<not> negproblemActive
                then (case negproblem c of None \<Rightarrow> s2 | Some n \<Rightarrow> deactivatePropagate n s2) else s2);
          s4 = (unprotect s3)\<lparr>installed := hooks_installed\<rparr>
      in (if unsat then maxc else MIN_COST, s4))"

definition eval :: "env \<Rightarrow> cost \<Rightarrow> wctr \<Rightarrow> nat list \<Rightarrow> gstate \<Rightarrow> (exn + cost) \<times> gstate" where
  "eval e maxc c t s =
     (let vals = map (\<lambda>(v, i). toValue e v i) (zip (scope c) t);
          idxs = [0..<length (scope c)];
          s1 = protect True (s\<lparr>installed := hooks_null\<rparr>);
          depth = getDepth s1;
          s2 = store s1;
          (r, pa, na, us, s3) =
             (case problem c of
                Some p \<Rightarrow>
                  (case eval_slave e p (\<lambda>l. l < lb c) idxs vals s2 of
                     (r, a, u, s') \<Rightarrow> (r, a, True, u, s'))
              | None \<Rightarrow>
                  (case negproblem c of
                     Some n \<Rightarrow>
                       (case eval_slave e n (\<lambda>l. l \<le> - ub c + negCost c) idxs vals s2 of
                          (r, a, u, s') \<Rightarrow> (r, True, a, u, s'))
                   | None \<Rightarrow> (Ok, True, True, False, s2)))
      in (case r of
            Ok \<Rightarrow> (case eval_finish maxc c depth pa na us s3 of (k, s4) \<Rightarrow> (Inr k, s4))
          | Raised Contradiction \<Rightarrow>
              (case eval_finish maxc c depth pa na True (cleanup_slaves e c s3) of
                 (k, s4) \<Rightarrow> (Inr k, s4))
          | Raised x \<Rightarrow> (Inl x, s3)))"

subsection \<open>propagate and assign\<close>

definition propagate_slave :: "env \<Rightarrow> int \<Rightarrow> gstate \<Rightarrow> outcome \<times> gstate" where
  "propagate_slave e p s =
     andthen (callx e (Propagate p) (protect True s)) (\<lambda>s1. (Ok, unprotect s1))"

definition propagate_try :: "env \<Rightarrow> wctr \<Rightarrow> gstate \<Rightarrow> outcome \<times> gstate" where
  "propagate_try e c s =
     andthen
       (case problem c of
          None \<Rightarrow> (Ok, s)
        | Some p \<Rightarrow>
            (if isactivatePropagate p s then
               andthen (propagate_slave e p s)
                 (\<lambda>s1. if strongDuality c \<and> is_connected c s1 \<and> canbeDeconnected c s1
                        then (if getLb p s1 < lb c then (Raised Contradiction, s1)
                              else (Ok, deconnect c s1))
                        else (Ok, s1))
             else (Ok, s)))
       (\<lambda>s2. if is_connected c s2 then
                (case negproblem c of
                   None \<Rightarrow> (Ok, s2)
                 | Some n \<Rightarrow> (if isactivatePropagate n s2 then propagate_slave e n s2 else (Ok, s2)))
              else (Ok, s2))"

definition propagate :: "env \<Rightarrow> wctr \<Rightarrow> gstate \<Rightarrow> outcome \<times> gstate" where
  "propagate e c s =
     andthen (callx e (Revise (cid c)) s) (\<lambda>s1.
     andthen (case problem c of None \<Rightarrow> (Ok, s1) | Some p \<Rightarrow> callx e (EnforceUb p) s1) (\<lambda>s2.
     andthen (case negproblem c of None \<Rightarrow> (Ok, s2) | Some n \<Rightarrow> callx e (EnforceUb n) s2) (\<lambda>s3.
     andthen (callx e (Assigns (cid c)) s3) (\<lambda>s4.
       if is_connected c s4 then
         catch_contradiction (propagate_try e c s4)
           (\<lambda>s5. (Raised Contradiction, unprotect (cleanup_slaves e c s5)))
       else (Ok, s4)))))"

definition dec_nonassigned :: "wctr \<Rightarrow> gstate \<Rightarrow> gstate" where
  "dec_nonassigned c s =
     s\<lparr>cur := (cur s)\<lparr>nonassigned := (nonassigned (cur s))(cid c := nonassigned (cur s) (cid c) - 1)\<rparr>\<rparr>"

definition getNonAssigned :: "wctr \<Rightarrow> gstate \<Rightarrow> int" where
  "getNonAssigned c s = nonassigned (cur s) (cid c)"

definition assign :: "env \<Rightarrow> wctr \<Rightarrow> nat \<Rightarrow> gstate \<Rightarrow> outcome \<times> gstate" where
  "assign e c varIndex s =
     (if connected_at c varIndex s then
        (let s1 = dec_nonassigned c (deconnect_at c varIndex s)
         in if universal c s1 then (Ok, deconnect c s1)
            else if getNonAssigned c s1 \<le> NARYPROJECTIONSIZE
                    \<and> (\<not> strongDuality c \<or> getNonAssigned c s1 = 0)
                 then callx e (ProjectNary (cid c)) (deconnect c s1)
                 else propagate e c s1)
      else (Ok, s))"

subsection \<open>The channelling callbacks\<close>

text \<open>\<^verbatim>\<open>getIndex(masterVar)\<close> of the constraint: the position of the variable in the scope,
  \<open>None\<close> for the source's \<open>-1\<close>.\<close>

fun scope_index :: "nat list \<Rightarrow> nat \<Rightarrow> nat option" where
  "scope_index [] v = None"
| "scope_index (x # xs) v = (if x = v then Some 0 else map_option Suc (scope_index xs v))"

text \<open>One \<^verbatim>\<open>try\<close> block of the forwarding loop, for the target problem \<open>p\<close>.\<close>

definition forward :: "env \<Rightarrow> int \<Rightarrow> nat \<Rightarrow> vop \<Rightarrow> int \<Rightarrow> gstate \<Rightarrow> outcome \<times> gstate" where
  "forward e p pos opr v s =
     catch_contradiction
       (andthen (callx e (EnforceUb p) s) (\<lambda>s1. callx e (VarOp p pos opr v) s1))
       (\<lambda>s2. (Raised Contradiction, unprotect (cleanupx e p s2)))"

definition forward_entry ::
  "env \<Rightarrow> int \<Rightarrow> nat \<Rightarrow> vop \<Rightarrow> int \<Rightarrow> wctr \<Rightarrow> gstate \<Rightarrow> outcome \<times> gstate" where
  "forward_entry e wcspId masterVar opr v gc s =
     (if is_connected gc s then
        (case scope_index (scope gc) masterVar of
           None \<Rightarrow> (Ok, s)
         | Some pos \<Rightarrow>
             andthen
               (case problem gc of
                  None \<Rightarrow> (Ok, s)
                | Some p \<Rightarrow> (if wcspId \<noteq> p then forward e p pos opr v s else (Ok, s)))
               (\<lambda>s1. if is_connected gc s1 then
                        (case negproblem gc of
                           None \<Rightarrow> (Ok, s1)
                         | Some n \<Rightarrow> (if wcspId \<noteq> n then forward e n pos opr v s1 else (Ok, s1)))
                      else (Ok, s1)))
      else (Ok, s))"

text \<open>The loop \<^verbatim>\<open>for (auto gc : WeightedCSPConstraints)\<close>, over the table's entries in the
  order of the map.\<close>

fun forward_all ::
  "env \<Rightarrow> int \<Rightarrow> nat \<Rightarrow> vop \<Rightarrow> int \<Rightarrow> (int \<times> wctr) list \<Rightarrow> gstate \<Rightarrow> outcome \<times> gstate" where
  "forward_all e wcspId masterVar opr v [] s = (Ok, s)"
| "forward_all e wcspId masterVar opr v (kgc # rest) s =
     andthen (forward_entry e wcspId masterVar opr v (snd kgc) s)
       (forward_all e wcspId masterVar opr v rest)"

text \<open>
  The locals \<^verbatim>\<open>wcsp\<close> and \<^verbatim>\<open>masterVar\<close> of a callback. A null or out-of-range access
  (which the assertions of the source exclude) has no value.
\<close>

definition origin :: "statics \<Rightarrow> int \<Rightarrow> int \<Rightarrow> nat \<Rightarrow> (int \<times> nat) option" where
  "origin st m wcspId varIndex =
     (if wcspId \<noteq> m then
        (case map_of (WeightedCSPConstraints st) wcspId of
           None \<Rightarrow> None
         | Some gc \<Rightarrow>
             (case (if problem gc = Some wcspId then Some wcspId else negproblem gc) of
                None \<Rightarrow> None
              | Some w \<Rightarrow>
                  (if varIndex < length (scope gc) then Some (w, scope gc ! varIndex) else None)))
      else Some (m, varIndex))"

text \<open>
  The four callbacks have the same body, apart from the variable operation they apply
  and the call of the solver's \<^verbatim>\<open>setvalue\<close> that only \<^verbatim>\<open>tb2setvalue\<close> makes for an event
  of the master.
\<close>

definition channel ::
  "env \<Rightarrow> statics \<Rightarrow> vop \<Rightarrow> int \<Rightarrow> nat \<Rightarrow> int \<Rightarrow> gstate \<Rightarrow> outcome \<times> gstate" where
  "channel e st opr wcspId varIndex v s =
     (case MasterWeightedCSP st of
        None \<Rightarrow> (Raised Crash, s)
      | Some m \<Rightarrow>
          (case origin st m wcspId varIndex of
             None \<Rightarrow> (Raised Crash, s)
           | Some (w, masterVar) \<Rightarrow>
               andthen
                 (if wcspId \<noteq> m then
                    andthen (callx e (VarOp m masterVar opr v) (unprotect (deactivatePropagate w s)))
                      (\<lambda>s1. (Ok, protect False s1))
                  else
                    andthen
                      (if opr = Assign
                       then callx e (SolverSetvalue m masterVar v) (deactivatePropagate w s)
                       else (Ok, deactivatePropagate w s))
                      (\<lambda>s1. (Ok, protect True s1)))
                 (\<lambda>s2.
                    andthen (forward_all e wcspId masterVar opr v (WeightedCSPConstraints st) s2)
                      (\<lambda>s3. (Ok, if wcspId = m then unprotect (reactivatePropagate w s3)
                                  else reactivatePropagate w s3)))))"

definition tb2setvalue :: "env \<Rightarrow> statics \<Rightarrow> int \<Rightarrow> nat \<Rightarrow> int \<Rightarrow> gstate \<Rightarrow> outcome \<times> gstate" where
  "tb2setvalue e st = channel e st Assign"

definition tb2removevalue :: "env \<Rightarrow> statics \<Rightarrow> int \<Rightarrow> nat \<Rightarrow> int \<Rightarrow> gstate \<Rightarrow> outcome \<times> gstate" where
  "tb2removevalue e st = channel e st Remove"

definition tb2setmin :: "env \<Rightarrow> statics \<Rightarrow> int \<Rightarrow> nat \<Rightarrow> int \<Rightarrow> gstate \<Rightarrow> outcome \<times> gstate" where
  "tb2setmin e st = channel e st Increase"

definition tb2setmax :: "env \<Rightarrow> statics \<Rightarrow> int \<Rightarrow> nat \<Rightarrow> int \<Rightarrow> gstate \<Rightarrow> outcome \<times> gstate" where
  "tb2setmax e st = channel e st Decrease"

subsection \<open>What the called code may do to the guard\<close>

text \<open>
  The called code can fire further channelled events. Seen from the caller, such a call
  keeps the guard (the flag and the ten live options are as before; the saved copies are
  as before when the guard was held, and otherwise either as before or a copy of the live
  options), or, when it ends in an exception raised under a held guard, it may already
  have released the guard the way \<^verbatim>\<open>unprotect\<close> does. The cleanup routine does not
  touch the guard.
\<close>

definition guard_kept :: "gstate \<Rightarrow> gstate \<Rightarrow> bool" where
  "guard_kept s s' =
     (is_protected s' = is_protected s \<and> tb2 s' = tb2 s
      \<and> (if is_protected s then saved s' = saved s else saved s' = saved s \<or> saved s' = tb2 s))"

definition guard_released :: "gstate \<Rightarrow> gstate \<Rightarrow> bool" where
  "guard_released s s' =
     (is_protected s \<and> \<not> is_protected s' \<and> tb2 s' = saved s \<and> saved s' = saved s)"

definition keeps_guard :: "env \<Rightarrow> bool" where
  "keeps_guard e =
     ((\<forall>c s. guard_kept s (snd (ext e c s))
            \<or> (fst (ext e c s) \<noteq> Ok \<and> guard_released s (snd (ext e c s))))
      \<and> (\<forall>w s. is_protected (whenContradiction e w s) = is_protected s
              \<and> tb2 (whenContradiction e w s) = tb2 s
              \<and> saved (whenContradiction e w s) = saved s))"

subsection \<open>What the called code may do to the store and to the activation flags\<close>

definition keeps_store :: "env \<Rightarrow> bool" where
  "keeps_store e =
     ((\<forall>c s. trail (snd (ext e c s)) = trail s \<and> active (snd (ext e c s)) = active s)
      \<and> (\<forall>w s. trail (whenContradiction e w s) = trail s
              \<and> active (whenContradiction e w s) = active s))"

definition raises_only_contradiction :: "env \<Rightarrow> bool" where
  "raises_only_contradiction e = (\<forall>c s. fst (ext e c s) \<in> {Ok, Raised Contradiction})"

definition after_deactivations :: "wctr \<Rightarrow> bool \<Rightarrow> bool \<Rightarrow> (int \<Rightarrow> bool) \<Rightarrow> (int \<Rightarrow> bool)" where
  "after_deactivations c pa na a =
     (let a1 = (if \<not> pa then (case problem c of None \<Rightarrow> a | Some p \<Rightarrow> a(p := False)) else a)
      in if \<not> na then (case negproblem c of None \<Rightarrow> a1 | Some n \<Rightarrow> a1(n := False)) else a1)"

subsection \<open>A small family: master 0 with one meta-constraint over the slaves 1 and 2\<close>

definition ex_env :: env where
  "ex_env = \<lparr>ext = (\<lambda>c s. (Ok, s)), whenContradiction = (\<lambda>w s. s), toValue = (\<lambda>v i. int i)\<rparr>"

text \<open>An environment in which every variable operation on problem 1 raises a contradiction.\<close>

definition ex_env_fail :: env where
  "ex_env_fail =
     \<lparr>ext = (\<lambda>c s. case c of VarOp w x opr v \<Rightarrow> (if w = 1 then (Raised Contradiction, s) else (Ok, s))
                      | _ \<Rightarrow> (Ok, s)),
      whenContradiction = (\<lambda>w s. s), toValue = (\<lambda>v i. int i)\<rparr>"

text \<open>An environment in which the bulk assignment raises the slave's lower bound and then
  raises a contradiction.\<close>

definition ex_env_probe :: env where
  "ex_env_probe =
     \<lparr>ext = (\<lambda>c s. case c of
                AssignLS w xs vs \<Rightarrow>
                  (Raised Contradiction, s\<lparr>cur := (cur s)\<lparr>lbs := (lbs (cur s))(w := 7)\<rparr>\<rparr>)
              | _ \<Rightarrow> (Ok, s)),
      whenContradiction = (\<lambda>w s. s), toValue = (\<lambda>v i. int i)\<rparr>"

definition ex_flags :: flags where
  "ex_flags =
     \<lparr>preprocessFunctional = 1, elimDegree = 3, elimDegree_preprocessing = 2,
      elimDegree_u = 3, elimDegree_preprocessing_u = 2, DEE = 1, DEE_u = 1,
      FullEAC = True, RASPS = True, useRASPS = 1\<rparr>"

definition ex_bt :: bt where
  "ex_bt = \<lparr>lbs = (\<lambda>w. 0), nonassigned = (\<lambda>c. 2), links = (\<lambda>c. [True, True]),
            unassigned = (\<lambda>v. True), degree = (\<lambda>v. 2)\<rparr>"

definition ex_state :: gstate where
  "ex_state =
     \<lparr>is_protected = False, tb2 = ex_flags, saved = disabled_flags, installed = hooks_installed,
      active = (\<lambda>w. True), wub = (\<lambda>w. 1000), cur = ex_bt, trail = [], trace = []\<rparr>"

definition ex_ctr :: wctr where
  "ex_ctr = \<lparr>cid = 0, isfinite = True, strongDuality = False, lb = 1, ub = 5, negCost = 0,
             problem = Some 1, negproblem = Some 2, scope = [0, 1]\<rparr>"

definition ex_statics :: statics where
  "ex_statics = \<lparr>MasterWeightedCSP = Some 0, WeightedCSPConstraints = [(1, ex_ctr), (2, ex_ctr)]\<rparr>"

definition ex_problem :: wcsp where
  "ex_problem = \<lparr>getIndex = 1, getNegativeLb = 0, wcsp_isfinite = True\<rparr>"

definition ex_negproblem :: wcsp where
  "ex_negproblem = \<lparr>getIndex = 2, getNegativeLb = 0, wcsp_isfinite = True\<rparr>"

text \<open>A meta-constraint with strong duality over three variables.\<close>

definition ex_ctr_sd :: wctr where
  "ex_ctr_sd = \<lparr>cid = 0, isfinite = True, strongDuality = True, lb = 1, ub = 5, negCost = 0,
                problem = Some 1, negproblem = Some 2, scope = [0, 1, 2]\<rparr>"

definition ex_state_sd :: gstate where
  "ex_state_sd =
     ex_state\<lparr>cur := ex_bt\<lparr>nonassigned := (\<lambda>c. 3), links := (\<lambda>c. [True, True, True])\<rparr>\<rparr>"

subsection \<open>Reading the trace\<close>










section \<open>The WCNF/CNF reader (tb2reader.cpp, read_wcnf)\<close>

text \<open>
  The clause loop of \<^verbatim>\<open>WCSP::read_wcnf\<close>. The input is the stream of integers that
  follows the header; an extraction from the exhausted stream fails and leaves the
  variable as it is. The \<^verbatim>\<open>do\<close> loop over the literals of a clause may then never end: the
  result of the loop, of an iteration of the clause loop and of the clause loop is an
  option, and \<open>None\<close> stands for not returning. Numerals outside the range of the variable
  read, on which an extraction fails too, are not in the model; neither is the bound
  \<^verbatim>\<open>MAX_ARITY\<close> of the array \<^verbatim>\<open>scopeIndex\<close>, which the model takes as long as needed.
  \<^verbatim>\<open>MULT(cost, K)\<close> is a macro declared outside the given sources and is a parameter. What the loop hands to the network builder is recorded: the n-ary, ternary
  and binary cost functions posted, the unary ones collected in \<^verbatim>\<open>unaryconstrs\<close>, and the
  lower-bound increment.
\<close>

datatype post =
    PostNary "nat list" "nat list" cost
  | PostTernary nat nat nat "cost list"
  | PostBinary nat nat "cost list"

record wcnf =
  posted :: "post list"
  unaryconstrs :: "(nat \<times> cost list) list"
  inclowerbound :: cost
  maxarity :: nat

text \<open>The locals of one iteration: the written part of the array \<^verbatim>\<open>scopeIndex\<close>, the
  vector \<^verbatim>\<open>tup\<close>, \<^verbatim>\<open>arity\<close> and \<^verbatim>\<open>tautology\<close>.\<close>

record clause_st =
  scopeIndex :: "nat list"
  tup :: "nat list"
  arity :: nat
  tautology :: bool

definition clause_init :: clause_st where
  "clause_init = \<lparr>scopeIndex = [], tup = [], arity = 0, tautology = False\<rparr>"

text \<open>A write at index \<open>i\<close>: in place when the index is inside, \<^verbatim>\<open>push_back\<close> otherwise.\<close>

definition store_at :: "'a list \<Rightarrow> nat \<Rightarrow> 'a \<Rightarrow> 'a list" where
  "store_at xs i x = (if i < length xs then xs[i := x] else xs @ [x])"

text \<open>The inner loop \<^verbatim>\<open>while (k < arity)\<close> that stops at the first earlier position with the
  same variable: the number of steps it makes over the first \<open>arity\<close> entries.\<close>

fun scan :: "nat list \<Rightarrow> nat \<Rightarrow> nat" where
  "scan [] x = 0"
| "scan (y # ys) x = (if y = x then 0 else Suc (scan ys x))"

text \<open>The body of the \<^verbatim>\<open>do\<close> loop for a literal \<open>j \<noteq> 0\<close>.\<close>

definition add_literal :: "int \<Rightarrow> clause_st \<Rightarrow> clause_st" where
  "add_literal j c =
     (if tautology c then c
      else
        (let si = store_at (scopeIndex c) (arity c) (nat (\<bar>j\<bar> - 1));
             tp = store_at (tup c) (arity c) (if j > 0 then 0 else 1);
             k = scan (take (arity c) si) (si ! arity c)
         in if k < arity c then
              (if tp ! k \<noteq> tp ! arity c
               then c\<lparr>scopeIndex := si, tup := tp, tautology := True\<rparr>
               else c\<lparr>scopeIndex := si, tup := tp\<rparr>)
            else c\<lparr>scopeIndex := si, tup := tp, arity := Suc (arity c)\<rparr>))"

text \<open>An extraction \<^verbatim>\<open>file >> x\<close>: the next integer of the stream; on the exhausted stream
  the variable keeps its value.\<close>

definition stream_get :: "int \<Rightarrow> int list \<Rightarrow> int \<times> int list" where
  "stream_get x toks = (case toks of [] \<Rightarrow> (x, []) | y # r \<Rightarrow> (y, r))"

text \<open>The \<^verbatim>\<open>do ... while (j != 0)\<close> loop, entered with the current value of \<open>j\<close>: it
  consumes the literals and the closing 0. On a stream that ends inside a clause \<open>j\<close>
  keeps the last literal and the loop does not end.\<close>

partial_function (option) read_literals ::
  "int \<Rightarrow> int list \<Rightarrow> clause_st \<Rightarrow> (clause_st \<times> int list) option" where
  "read_literals j toks c =
     (case stream_get j toks of
        (j', toks') \<Rightarrow>
          (let c' = (if j' \<noteq> 0 then add_literal j' c else c)
           in if j' \<noteq> 0 then read_literals j' toks' c' else Some (c', toks')))"

text \<open>What follows \<^verbatim>\<open>if (tautology) continue;\<close>.\<close>

definition post_clause :: "(cost \<Rightarrow> cost) \<Rightarrow> cost \<Rightarrow> clause_st \<Rightarrow> wcnf \<Rightarrow> wcnf" where
  "post_clause mult c cl w =
     (let w1 = w\<lparr>maxarity := max (maxarity w) (arity cl)\<rparr>; sc = scopeIndex cl; t = tup cl
      in if arity cl > 3 then
           w1\<lparr>posted := posted w1 @ [PostNary (take (arity cl) sc) t (mult c)]\<rparr>
         else if arity cl = 3 then
           w1\<lparr>posted := posted w1 @
                 [PostTernary (sc ! 0) (sc ! 1) (sc ! 2)
                    ((replicate 8 MIN_COST)[t ! 0 * 4 + t ! 1 * 2 + t ! 2 := mult c])]\<rparr>
         else if arity cl = 2 then
           w1\<lparr>posted := posted w1 @
                 [PostBinary (sc ! 0) (sc ! 1) ((replicate 4 MIN_COST)[t ! 0 * 2 + t ! 1 := mult c])]\<rparr>
         else if arity cl = 1 then
           w1\<lparr>unaryconstrs := unaryconstrs w1 @
                 [(sc ! 0, if t ! 0 = 0 then [mult c, MIN_COST] else [MIN_COST, mult c])]\<rparr>
         else w1\<lparr>inclowerbound := inclowerbound w1 + mult c\<rparr>)"

text \<open>One iteration of the clause loop; \<open>weighted\<close> is \<^verbatim>\<open>format == "wcnf"\<close>.\<close>

definition read_clause ::
  "bool \<Rightarrow> (cost \<Rightarrow> cost) \<Rightarrow> int list \<Rightarrow> wcnf \<Rightarrow> (wcnf \<times> int list) option" where
  "read_clause weighted mult toks w =
     (let (c, toks1) = (if weighted then stream_get UNIT_COST toks else (UNIT_COST, toks))
      in case read_literals 0 toks1 clause_init of
           None \<Rightarrow> None
         | Some (cl, rest) \<Rightarrow>
             Some (if tautology cl then (w, rest) else (post_clause mult c cl w, rest)))"

fun read_clauses ::
  "nat \<Rightarrow> bool \<Rightarrow> (cost \<Rightarrow> cost) \<Rightarrow> int list \<Rightarrow> wcnf \<Rightarrow> (wcnf \<times> int list) option" where
  "read_clauses 0 weighted mult toks w = Some (w, toks)"
| "read_clauses (Suc n) weighted mult toks w =
     (case read_clause weighted mult toks w of
        None \<Rightarrow> None
      | Some (w', rest) \<Rightarrow> read_clauses n weighted mult rest w')"

text \<open>What the locals record while no tautology has been found: the scope positions in
  use hold distinct variables, and every literal read so far has its variable at one of
  them, with its sign.\<close>

definition clause_inv :: "clause_st \<Rightarrow> int set \<Rightarrow> bool" where
  "clause_inv c seen =
     (arity c \<le> length (scopeIndex c) \<and> arity c \<le> length (tup c)
      \<and> distinct (take (arity c) (scopeIndex c))
      \<and> (tautology c \<or>
           (\<forall>x \<in> seen. \<exists>k < arity c. scopeIndex c ! k = nat (\<bar>x\<bar> - 1)
                                     \<and> tup c ! k = (if x > 0 then 0 else 1))))"

section \<open>The CFN reader (tb2reader.cpp, CFNStreamReader)\<close>

text \<open>
  The reader works on the list of tokens still to be read; at the end of the input
  \<^verbatim>\<open>getNextToken\<close> yields the empty token. An error exit (\<^verbatim>\<open>exit(EXIT_FAILURE)\<close>) is the
  value \<open>Inl ExitFailure\<close>. The floating-point type \<^verbatim>\<open>Double\<close> is modelled by the real
  numbers, and a conversion \<^verbatim>\<open>(Cost)\<close> of such a number by truncation towards zero.
  Declared outside the given sources, and parameters here: the constants \<^verbatim>\<open>MAX_COST\<close> and
  \<^verbatim>\<open>MEDIUM_COST\<close> (both positive), the macro \<^verbatim>\<open>CUT\<close>, and \<^verbatim>\<open>decimalToCost\<close>, which
  parses a cost or exits; for the two option strings \<^verbatim>\<open>externalUB\<close> and \<^verbatim>\<open>deltaUbS\<close> the
  parameter is the cost that \<^verbatim>\<open>decimalToCost\<close> returns for the string, \<open>None\<close> when the
  string is empty.
\<close>

datatype reader_error = ExitFailure

record reader_env =
  costMultiplier :: real
  externalUB :: "cost option"
  deltaUbS :: "cost option"
  deltaUbRelativeGap :: real
  MAX_COST :: cost
  MEDIUM_COST :: cost
  CUT :: "cost \<Rightarrow> cost \<Rightarrow> bool"
  decimalToCost :: "string \<Rightarrow> cost option"
  varValNameToIdx :: "nat \<Rightarrow> string \<Rightarrow> nat option"
  getDomainInitSize :: "nat \<Rightarrow> nat"

text \<open>An n-ary cost function as posted: scope, default cost, and the tuples with their
  costs in the order of the calls of \<^verbatim>\<open>postNaryConstraintTuple\<close>.\<close>

datatype nary = NaryFn "nat list" cost "(nat list \<times> cost) list"

record reader_state =
  w_ub :: cost
  w_negCost :: cost
  deltaUbAbsolute :: cost
  deltaUb :: cost
  nary_posted :: "nary list"

definition to_cost :: "real \<Rightarrow> cost" where
  "to_cost x = (if x \<ge> 0 then \<lfloor>x\<rfloor> else \<lceil>x\<rceil>)"

definition reader_updateUb :: "cost \<Rightarrow> reader_state \<Rightarrow> reader_state" where
  \<comment> \<open>Modelled from the spec: \<^verbatim>\<open>WCSP::updateUb\<close> is outside the given sources; the bound is
      clamped to at most the existing one.\<close>
  "reader_updateUb b s = s\<lparr>w_ub := min (w_ub s) b\<rparr>"

subsection \<open>enforceUB\<close>

definition enforceUB :: "reader_env \<Rightarrow> cost \<Rightarrow> reader_state \<Rightarrow> reader_error + reader_state" where
  "enforceUB g bound s =
     (let K = costMultiplier g;
          shifted0 = to_cost (of_int bound + of_int (w_negCost s) / K);
          shifted = (if K < 0 then - shifted0 else shifted0)
      in if of_int shifted \<le> of_int (MAX_COST g - w_negCost s) / \<bar>K\<bar> then
           (let b1 = to_cost (of_int bound * K + of_int (w_negCost s));
                b2 = (if shifted < MIN_COST then MIN_COST else b1);
                b3 = (case externalUB g of None \<Rightarrow> b2 | Some x \<Rightarrow> min b2 (x + w_negCost s))
            in (case deltaUbS g of
                  None \<Rightarrow> Inr (reader_updateUb b3 s)
                | Some d \<Rightarrow>
                    (let da = max MIN_COST d;
                         du = max da (to_cost (deltaUbRelativeGap g * of_int (min b3 (w_ub s))));
                         b4 = (if du > MIN_COST then b3 + du else b3)
                     in Inr (reader_updateUb b4 (s\<lparr>deltaUbAbsolute := da, deltaUb := du\<rparr>)))))
         else Inl ExitFailure)"

text \<open>
  The working upper bound as the specification words it: the minimum of the file bound,
  the external upper bound and the current upper bound, scaled by the multiplier and
  shifted by \<open>negCost\<close> (a negative result replaced by zero), increased by
  \<open>deltaUb = max(deltaUbAbsolute, deltaUbRelativeGap \<sqdot> ub_eff)\<close>, clamped to at most the
  existing upper bound.
\<close>

definition spec_working_ub :: "reader_env \<Rightarrow> cost \<Rightarrow> reader_state \<Rightarrow> cost" where
  "spec_working_ub g bound s =
     (let m = (case externalUB g of None \<Rightarrow> min bound (w_ub s)
               | Some x \<Rightarrow> min bound (min x (w_ub s)));
          e0 = to_cost (of_int m * costMultiplier g + of_int (w_negCost s));
          ub_eff = (if e0 < 0 then 0 else e0);
          dabs = (case deltaUbS g of None \<Rightarrow> deltaUbAbsolute s | Some d \<Rightarrow> max MIN_COST d);
          du = max dabs (to_cost (deltaUbRelativeGap g * of_int ub_eff))
      in min (w_ub s) (ub_eff + du))"

subsection \<open>Cost tables\<close>

definition isCBrace :: "string \<Rightarrow> bool" where
  "isCBrace token = (token = ''}'' \<or> token = '']'')"

definition isdigit :: "char \<Rightarrow> bool" where
  "isdigit c = (c \<in> set ''0123456789'')"

text \<open>\<^verbatim>\<open>stoi\<close> on a token that starts with a digit: the value of its leading digits (a
  value outside the range of \<^verbatim>\<open>int\<close> is not modelled).\<close>

definition stoi :: "string \<Rightarrow> nat" where
  "stoi token = foldl (\<lambda>a c. 10 * a + (of_char c - 48)) 0 (takeWhile isdigit token)"

definition getValueIdx :: "reader_env \<Rightarrow> nat \<Rightarrow> string \<Rightarrow> reader_error + nat" where
  "getValueIdx g variableIdx token =
     (if \<not> (token \<noteq> [] \<and> isdigit (hd token)) then
        (case varValNameToIdx g variableIdx token of
           Some i \<Rightarrow> Inr i
         | None \<Rightarrow> Inl ExitFailure)
      else
        (if stoi token \<ge> getDomainInitSize g variableIdx then Inl ExitFailure
         else Inr (stoi token)))"

text \<open>The medium-cost rule applied to every cost of a table of arity up to three and to
  the costs of a sparse n-ary table.\<close>

definition rescale :: "reader_env \<Rightarrow> cost \<Rightarrow> cost \<Rightarrow> cost" where
  "rescale g ubv c =
     (if CUT g c ubv \<and> c < MEDIUM_COST g * ubv \<and> ubv < MAX_COST g div MEDIUM_COST g
      then c * MEDIUM_COST g else c)"

definition skipCBrace :: "string list \<Rightarrow> reader_error + string list" where
  "skipCBrace toks =
     (case toks of [] \<Rightarrow> Inl ExitFailure
      | t # ts \<Rightarrow> (if isCBrace t then Inr ts else Inl ExitFailure))"

text \<open>The locals of the tuple loop of \<^verbatim>\<open>readFunctionCostTable\<close>.\<close>

record table_loop =
  scopeIdx :: nat
  tableIdx :: nat
  nbCostInserted :: nat
  minCost :: cost
  costVector :: "cost list"

text \<open>
  The loop \<^verbatim>\<open>while (!isCBrace(token))\<close> over tuples with their costs. It ends after the
  closing brace. At the end of the input the token is empty, which is neither a value
  name nor a cost: the reader exits.
\<close>

fun tuple_loop ::
  "reader_env \<Rightarrow> nat list \<Rightarrow> cost \<Rightarrow> cost \<Rightarrow> string list \<Rightarrow> table_loop
     \<Rightarrow> reader_error + (table_loop \<times> string list)" where
  "tuple_loop g scp defaultCost ubv [] l = Inl ExitFailure"
| "tuple_loop g scp defaultCost ubv (token # toks) l =
     (if isCBrace token then Inr (l, toks)
      else if scopeIdx l = length scp then
        (case decimalToCost g token of
           None \<Rightarrow> Inl ExitFailure
         | Some c0 \<Rightarrow>
             (let c = rescale g ubv c0
              in if costVector l ! tableIdx l \<noteq> defaultCost then Inl ExitFailure
                 else tuple_loop g scp defaultCost ubv toks
                        (l\<lparr>costVector := (costVector l)[tableIdx l := c],
                           nbCostInserted := Suc (nbCostInserted l),
                           minCost := min c (minCost l),
                           scopeIdx := 0, tableIdx := 0\<rparr>)))
      else
        (case getValueIdx g (scp ! scopeIdx l) token of
           Inl x \<Rightarrow> Inl x
         | Inr valueIdx \<Rightarrow>
             tuple_loop g scp defaultCost ubv toks
               (l\<lparr>tableIdx := (if scopeIdx l \<noteq> 0
                                then tableIdx l * getDomainInitSize g (scp ! scopeIdx l)
                                else tableIdx l) + valueIdx,
                  scopeIdx := Suc (scopeIdx l)\<rparr>)))"

text \<open>The loop \<^verbatim>\<open>while (tableIdx < costVecSize)\<close> over a full list of costs: \<open>n\<close> costs are
  still to be read.\<close>

fun full_loop ::
  "reader_env \<Rightarrow> cost \<Rightarrow> nat \<Rightarrow> string list \<Rightarrow> cost \<Rightarrow> cost list
     \<Rightarrow> reader_error + (cost \<times> cost list \<times> string list)" where
  "full_loop g ubv 0 toks mc acc = Inr (mc, acc, toks)"
| "full_loop g ubv (Suc n) toks mc acc =
     (case decimalToCost g (case toks of [] \<Rightarrow> [] | t # ts \<Rightarrow> t) of
        None \<Rightarrow> Inl ExitFailure
      | Some c0 \<Rightarrow>
          (let c = rescale g ubv c0
           in full_loop g ubv n (tl toks) (min c mc) (acc @ [c])))"

definition costVecSize :: "reader_env \<Rightarrow> nat list \<Rightarrow> nat" where
  "costVecSize g scp = prod_list (map (getDomainInitSize g) scp)"

text \<open>\<^verbatim>\<open>readFunctionCostTable\<close>: the result is the cost vector, the minimum cost (the
  reference parameter), the state with \<open>negCost\<close> updated and the remaining tokens.\<close>

definition readFunctionCostTable ::
  "reader_env \<Rightarrow> nat list \<Rightarrow> bool \<Rightarrow> cost \<Rightarrow> string list \<Rightarrow> reader_state
     \<Rightarrow> reader_error + (cost list \<times> cost \<times> reader_state \<times> string list)" where
  "readFunctionCostTable g scp all defaultCost0 toks s =
     (let defaultCost = rescale g (w_ub s) defaultCost0;
          n = costVecSize g scp;
          r = (if \<not> all then
                 (case tuple_loop g scp defaultCost (w_ub s) toks
                         \<lparr>scopeIdx = 0, tableIdx = 0, nbCostInserted = 0, minCost = MAX_COST g,
                          costVector = replicate n defaultCost\<rparr> of
                    Inl x \<Rightarrow> Inl x
                  | Inr (l, rest) \<Rightarrow>
                      Inr (if nbCostInserted l < n then min defaultCost (minCost l) else minCost l,
                           costVector l, rest))
               else
                 (case full_loop g (w_ub s) n toks (MAX_COST g) [] of
                    Inl x \<Rightarrow> Inl x
                  | Inr (mc, cv, rest) \<Rightarrow> Inr (mc, cv, tl rest)))
      in (case r of
            Inl x \<Rightarrow> Inl x
          | Inr (mc, cv, rest) \<Rightarrow>
              (case skipCBrace rest of
                 Inl x \<Rightarrow> Inl x
               | Inr rest' \<Rightarrow>
                   Inr (map (\<lambda>c. c - mc) cv, mc, s\<lparr>w_negCost := w_negCost s - mc\<rparr>, rest'))))"

subsection \<open>n-ary cost functions\<close>

text \<open>\<^verbatim>\<open>costFunction.insert\<close> on the \<^verbatim>\<open>std::map<Tuple, Cost>\<close>: the entries are kept in the
  order of the tuples; an existing tuple is not overwritten and the insertion reports
  failure (\<open>None\<close>).\<close>

fun tuple_insert :: "nat list \<Rightarrow> cost \<Rightarrow> (nat list \<times> cost) list \<Rightarrow> (nat list \<times> cost) list option" where
  "tuple_insert t c [] = Some [(t, c)]"
| "tuple_insert t c ((t', c') # rest) =
     (if t < t' then Some ((t, c) # (t', c') # rest)
      else if t = t' then None
      else map_option (\<lambda>r. (t', c') # r) (tuple_insert t c rest))"

record nary_loop =
  n_scopeIdx :: nat
  n_tup :: "nat list"
  costFunction :: "(nat list \<times> cost) list"
  nbTuples :: nat
  n_minCost :: cost

fun nary_tuple_loop ::
  "reader_env \<Rightarrow> nat list \<Rightarrow> cost \<Rightarrow> string list \<Rightarrow> nary_loop
     \<Rightarrow> reader_error + (nary_loop \<times> string list)" where
  "nary_tuple_loop g scp ubv [] l = Inl ExitFailure"
| "nary_tuple_loop g scp ubv (token # toks) l =
     (if isCBrace token then Inr (l, toks)
      else if n_scopeIdx l = length scp then
        (case decimalToCost g token of
           None \<Rightarrow> Inl ExitFailure
         | Some c0 \<Rightarrow>
             (let c = rescale g ubv c0
              in (case tuple_insert (n_tup l) c (costFunction l) of
                    None \<Rightarrow> Inl ExitFailure
                  | Some cf \<Rightarrow>
                      nary_tuple_loop g scp ubv toks
                        (l\<lparr>costFunction := cf, nbTuples := Suc (nbTuples l),
                           n_minCost := min c (n_minCost l), n_scopeIdx := 0\<rparr>))))
      else
        (case getValueIdx g (scp ! n_scopeIdx l) token of
           Inl x \<Rightarrow> Inl x
         | Inr valueIdx \<Rightarrow>
             nary_tuple_loop g scp ubv toks
               (l\<lparr>n_tup := (n_tup l)[n_scopeIdx l := valueIdx],
                  n_scopeIdx := Suc (n_scopeIdx l)\<rparr>)))"

text \<open>The loop that reads a full list of costs up to the closing brace: the minimum, the
  costs in the order read, and the remaining tokens.\<close>

fun nary_full_loop ::
  "reader_env \<Rightarrow> string list \<Rightarrow> cost \<Rightarrow> cost list
     \<Rightarrow> reader_error + (cost \<times> cost list \<times> string list)" where
  "nary_full_loop g [] mc costs = Inl ExitFailure"
| "nary_full_loop g (token # toks) mc costs =
     (if isCBrace token then Inr (mc, costs, toks)
      else
        (case decimalToCost g token of
           None \<Rightarrow> Inl ExitFailure
         | Some c \<Rightarrow> nary_full_loop g toks (min mc c) (costs @ [c])))"

definition ULONG_MAX :: int where
  \<comment> \<open>\<^verbatim>\<open>std::numeric_limits<unsigned long>::max()\<close> where \<^verbatim>\<open>unsigned long\<close> has 64 bits.\<close>
  "ULONG_MAX = 18446744073709551615"

text \<open>The test \<^verbatim>\<open>logCard > log(ULONG_MAX) || nbTuples < card\<close>. The argument of \<^verbatim>\<open>log\<close> is
  converted to floating point, where \<^verbatim>\<open>ULONG_MAX\<close> becomes \<open>ULONG_MAX + 1\<close>; the logarithms
  themselves are taken as exact, so the first test is that the cardinality of the
  Cartesian product exceeds \<open>ULONG_MAX + 1\<close>. The second is that fewer tuples were read than
  the product as \<^verbatim>\<open>unsigned long\<close>, which wraps around.\<close>

definition tuples_missing :: "reader_env \<Rightarrow> nat list \<Rightarrow> nat \<Rightarrow> bool" where
  "tuples_missing g scp n =
     (int (costVecSize g scp) > ULONG_MAX + 1
      \<or> int n < int (costVecSize g scp) mod (ULONG_MAX + 1))"

definition lex_tuples :: "reader_env \<Rightarrow> nat list \<Rightarrow> nat list list" where
  \<comment> \<open>Modelled from the spec: \<^verbatim>\<open>firstlex\<close>/\<^verbatim>\<open>nextlex\<close> of the n-ary constraint are outside
      the given sources; they enumerate the tuples of the scope in lexicographic order.\<close>
  "lex_tuples g scp = product_lists (map (\<lambda>v. [0..<getDomainInitSize g v]) scp)"

definition readNaryCostFunction ::
  "reader_env \<Rightarrow> nat list \<Rightarrow> bool \<Rightarrow> cost \<Rightarrow> string list \<Rightarrow> reader_state
     \<Rightarrow> reader_error + (reader_state \<times> string list)" where
  "readNaryCostFunction g scp all defaultCost0 toks s =
     (let defaultCost = rescale g (w_ub s) defaultCost0;
          r = (if \<not> all then
                 (case nary_tuple_loop g scp (w_ub s) toks
                         \<lparr>n_scopeIdx = 0, n_tup = replicate (length scp) 0, costFunction = [],
                          nbTuples = 0, n_minCost = MAX_COST g\<rparr> of
                    Inl x \<Rightarrow> Inl x
                  | Inr (l, rest) \<Rightarrow>
                      (let mc = (if tuples_missing g scp (nbTuples l)
                                 then min (n_minCost l) defaultCost else n_minCost l)
                       in Inr (mc,
                               NaryFn scp (defaultCost - mc)
                                 (map (\<lambda>(t, c). (t, c - mc)) (costFunction l)),
                               rest)))
               else
                 (case nary_full_loop g toks (MAX_COST g) [] of
                    Inl x \<Rightarrow> Inl x
                  | Inr (mc, costs, rest) \<Rightarrow>
                      (if tuples_missing g scp (length costs) then Inl ExitFailure
                       else Inr (mc, NaryFn scp MIN_COST (zip (lex_tuples g scp) costs), rest))))
      in (case r of
            Inl x \<Rightarrow> Inl x
          | Inr (mc, f, rest) \<Rightarrow>
              (case skipCBrace rest of
                 Inl x \<Rightarrow> Inl x
               | Inr rest' \<Rightarrow>
                   Inr (s\<lparr>nary_posted := nary_posted s @ [f], w_negCost := w_negCost s - mc\<rparr>,
                        rest'))))"

subsection \<open>A small reader instance\<close>

text \<open>Boolean variables without value names, multiplier 1, costs written as digit strings.\<close>

definition ex_reader :: reader_env where
  "ex_reader =
     \<lparr>costMultiplier = 1, externalUB = None, deltaUbS = Some 0, deltaUbRelativeGap = 0,
      MAX_COST = 1000000, MEDIUM_COST = 3, CUT = (\<lambda>l u. l \<ge> u),
      decimalToCost = (\<lambda>t. if t \<noteq> [] \<and> list_all isdigit t then Some (int (stoi t)) else None),
      varValNameToIdx = (\<lambda>v t. None), getDomainInitSize = (\<lambda>v. 2)\<rparr>"

definition ex_rstate :: reader_state where
  "ex_rstate = \<lparr>w_ub = 1000, w_negCost = 0, deltaUbAbsolute = 0, deltaUb = 0, nary_posted = []\<rparr>"

subsection \<open>The working upper bound in closed form\<close>

text \<open>The file bound scaled by the multiplier and shifted by \<open>negCost\<close>, zero when the
  shifted unscaled bound is negative; the same lowered to the external bound, which is
  shifted by \<open>negCost\<close> too; the slack \<open>deltaUb\<close>, computed only when the option string
  \<^verbatim>\<open>deltaUbS\<close> is set; and the overflow test.\<close>

definition shifted_unscaled :: "reader_env \<Rightarrow> cost \<Rightarrow> reader_state \<Rightarrow> cost" where
  "shifted_unscaled g bound s =
     (let x = to_cost (of_int bound + of_int (w_negCost s) / costMultiplier g)
      in if costMultiplier g < 0 then - x else x)"

definition bound_overflows :: "reader_env \<Rightarrow> cost \<Rightarrow> reader_state \<Rightarrow> bool" where
  "bound_overflows g bound s =
     (of_int (shifted_unscaled g bound s)
        > of_int (MAX_COST g - w_negCost s) / \<bar>costMultiplier g\<bar>)"

definition file_ub :: "reader_env \<Rightarrow> cost \<Rightarrow> reader_state \<Rightarrow> cost" where
  "file_ub g bound s =
     (if shifted_unscaled g bound s < 0 then 0
      else to_cost (of_int bound * costMultiplier g + of_int (w_negCost s)))"

definition effective_ub :: "reader_env \<Rightarrow> cost \<Rightarrow> reader_state \<Rightarrow> cost" where
  "effective_ub g bound s =
     (case externalUB g of
        None \<Rightarrow> file_ub g bound s
      | Some x \<Rightarrow> min (file_ub g bound s) (x + w_negCost s))"

definition slack :: "reader_env \<Rightarrow> cost \<Rightarrow> reader_state \<Rightarrow> cost" where
  "slack g bound s =
     (case deltaUbS g of
        None \<Rightarrow> 0
      | Some d \<Rightarrow>
          max (max 0 d)
            (to_cost (deltaUbRelativeGap g * of_int (min (effective_ub g bound s) (w_ub s)))))"

text \<open>A maximisation instance: multiplier \<open>-1\<close>, current upper bound 10, shift 15.\<close>

definition ex_reader_max :: reader_env where
  "ex_reader_max = ex_reader\<lparr>costMultiplier := -1\<rparr>"

definition ex_rstate_max :: reader_state where
  "ex_rstate_max = ex_rstate\<lparr>w_ub := 10, w_negCost := 15\<rparr>"

text \<open>What the tuple loop of \<^verbatim>\<open>readFunctionCostTable\<close> maintains: the vector keeps its size,
  the running index stays inside the product of the domains read so far, every written cost
  is at least the running minimum, and the counter counts the non-default entries while
  the minimum is above the default.\<close>

definition table_inv :: "reader_env \<Rightarrow> nat list \<Rightarrow> cost \<Rightarrow> table_loop \<Rightarrow> bool" where
  "table_inv g scp d l =
     (length (costVector l) = costVecSize g scp \<and> scopeIdx l \<le> length scp
      \<and> tableIdx l < prod_list (map (getDomainInitSize g) (take (scopeIdx l) scp))
      \<and> (\<forall>c \<in> set (costVector l). c = d \<or> minCost l \<le> c)
      \<and> (minCost l \<le> d \<or> length (filter (\<lambda>c. c \<noteq> d) (costVector l)) = nbCostInserted l))"

section \<open>Theorems\<close>

text \<open>
  C1. \<^verbatim>\<open>universal()\<close> returns true exactly when \<^verbatim>\<open>isfinite\<close> holds, the slave problem
  and the negated slave problem are both present, the slave's current lower bound is at
  least the constraint's \<open>lb\<close>, and the negated slave's current lower bound is strictly
  greater than \<open>-ub + negCost\<close>; in every other case, a missing slave included, it
  returns false.
\<close>

theorem universal_iff:
  "universal c s =
     (isfinite c \<and> (\<exists>p n. problem c = Some p \<and> negproblem c = Some n
        \<and> lb c \<le> lbs (cur s) p \<and> - ub c + negCost c < lbs (cur s) n))"
  by (auto simp: universal_def getLb_def split: option.splits)

subsection \<open>The guard across calls\<close>

lemma callx_guard:
  assumes "keeps_guard e" "callx e c s = (r, s')"
  shows "guard_kept s s' \<or> (r \<noteq> Ok \<and> guard_released s s')"
proof -
  obtain r0 s0 where x: "ext e c s = (r0, s0)" by (cases "ext e c s")
  with assms(2) have rs: "r = r0" "s' = s0\<lparr>trace := trace s @ [c]\<rparr>"
    by (auto simp: callx_def)
  from assms(1) have "guard_kept s (snd (ext e c s))
            \<or> (fst (ext e c s) \<noteq> Ok \<and> guard_released s (snd (ext e c s)))"
    unfolding keeps_guard_def by blast
  with x rs show ?thesis by (auto simp: guard_kept_def guard_released_def)
qed

lemma forward_guard:
  assumes "keeps_guard e" "is_protected s" "forward e p pos opr v s = (r, s')"
  shows "(r = Ok \<longrightarrow> is_protected s' \<and> tb2 s' = tb2 s \<and> saved s' = saved s)
       \<and> (r = Raised Contradiction \<longrightarrow> \<not> is_protected s' \<and> tb2 s' = saved s \<and> saved s' = saved s)"
proof -
  obtain r1 s1 where c1: "callx e (EnforceUb p) s = (r1, s1)" by (cases "callx e (EnforceUb p) s")
  obtain r2 s2 where c2: "callx e (VarOp p pos opr v) s1 = (r2, s2)" by (cases "callx e (VarOp p pos opr v) s1")
  note g1 = callx_guard[OF assms(1) c1]
  note g2 = callx_guard[OF assms(1) c2]
  from assms(1) have wc: "\<And>w s. is_protected (cleanupx e w s) = is_protected s
              \<and> tb2 (cleanupx e w s) = tb2 s
              \<and> saved (cleanupx e w s) = saved s"
    unfolding keeps_guard_def cleanupx_def by simp
  from assms(3) c1 c2 g1 g2 assms(2) show ?thesis
    by (auto simp: forward_def andthen_def catch_contradiction_def unprotect_def wc guard_kept_def guard_released_def
        split: outcome.splits exn.splits if_splits)
qed


lemma deconnect_at_frame:
  "is_protected (deconnect_at c i s) = is_protected s \<and> tb2 (deconnect_at c i s) = tb2 s
   \<and> saved (deconnect_at c i s) = saved s \<and> active (deconnect_at c i s) = active s
   \<and> trail (deconnect_at c i s) = trail s \<and> trace (deconnect_at c i s) = trace s
   \<and> installed (deconnect_at c i s) = installed s \<and> wub (deconnect_at c i s) = wub s"
  by (simp add: deconnect_at_def)

lemma fold_deconnect_at_frame:
  "is_protected (fold (deconnect_at c) is s) = is_protected s \<and> tb2 (fold (deconnect_at c) is s) = tb2 s
   \<and> saved (fold (deconnect_at c) is s) = saved s \<and> active (fold (deconnect_at c) is s) = active s
   \<and> trail (fold (deconnect_at c) is s) = trail s \<and> trace (fold (deconnect_at c) is s) = trace s
   \<and> installed (fold (deconnect_at c) is s) = installed s \<and> wub (fold (deconnect_at c) is s) = wub s"
  by (induction "is" arbitrary: s) (simp_all add: deconnect_at_frame)

lemma deconnect_frame [simp]:
  "is_protected (deconnect c s) = is_protected s" "tb2 (deconnect c s) = tb2 s"
  "saved (deconnect c s) = saved s" "active (deconnect c s) = active s"
  "trail (deconnect c s) = trail s" "trace (deconnect c s) = trace s"
  "installed (deconnect c s) = installed s" "wub (deconnect c s) = wub s"
  by (simp_all add: deconnect_def fold_deconnect_at_frame)

lemma forward_entry_guard:
  assumes "keeps_guard e" "is_protected s" "forward_entry e wid mv opr v gc s = (r, s')"
  shows "(r = Ok \<longrightarrow> is_protected s' \<and> tb2 s' = tb2 s \<and> saved s' = saved s)
       \<and> (r = Raised Contradiction \<longrightarrow> \<not> is_protected s' \<and> tb2 s' = saved s \<and> saved s' = saved s)"
proof (cases "is_connected gc s")
  case False
  with assms(2,3) show ?thesis by (auto simp: forward_entry_def)
next
  case conn: True
  show ?thesis
  proof (cases "scope_index (scope gc) mv")
    case None
    with conn assms(2,3) show ?thesis by (auto simp: forward_entry_def)
  next
    case (Some pos)
    define first where "first = (case problem gc of
                  None \<Rightarrow> (Ok, s)
                | Some p \<Rightarrow> (if wid \<noteq> p then forward e p pos opr v s else (Ok, s)))"
    obtain r1 s1 where f1: "first = (r1, s1)" by (cases first)
    have g1: "(r1 = Ok \<longrightarrow> is_protected s1 \<and> tb2 s1 = tb2 s \<and> saved s1 = saved s)
       \<and> (r1 = Raised Contradiction \<longrightarrow> \<not> is_protected s1 \<and> tb2 s1 = saved s \<and> saved s1 = saved s)"
      using f1 assms(2) forward_guard[OF assms(1) assms(2)]
      by (auto simp: first_def split: option.splits if_splits)
    show ?thesis
    proof (cases r1)
      case (Raised x)
      with assms(3) conn Some f1 have "r = r1" "s' = s1"
        by (auto simp: forward_entry_def first_def[symmetric] andthen_def)
      with g1 Raised show ?thesis by auto
    next
      case Ok
      with g1 have p1: "is_protected s1" "tb2 s1 = tb2 s" "saved s1 = saved s" by auto
      from assms(3) conn Some f1 Ok have second:
        "(if is_connected gc s1 then
            (case negproblem gc of None \<Rightarrow> (Ok, s1)
             | Some n \<Rightarrow> (if wid \<noteq> n then forward e n pos opr v s1 else (Ok, s1)))
          else (Ok, s1)) = (r, s')"
        by (auto simp: forward_entry_def first_def[symmetric] andthen_def)
      then show ?thesis
        using p1 forward_guard[OF assms(1) p1(1)]
        by (auto split: option.splits if_splits)
    qed
  qed
qed

lemma forward_all_guard:
  assumes "keeps_guard e"
  shows "is_protected s \<Longrightarrow> forward_all e wid mv opr v tbl s = (r, s') \<Longrightarrow>
         (r = Ok \<longrightarrow> is_protected s' \<and> tb2 s' = tb2 s \<and> saved s' = saved s)
       \<and> (r = Raised Contradiction \<longrightarrow> \<not> is_protected s' \<and> tb2 s' = saved s \<and> saved s' = saved s)"
proof (induction tbl arbitrary: s)
  case Nil
  then show ?case by simp
next
  case (Cons kgc rest)
  obtain r1 s1 where f1: "forward_entry e wid mv opr v (snd kgc) s = (r1, s1)"
    by (cases "forward_entry e wid mv opr v (snd kgc) s")
  note g1 = forward_entry_guard[OF assms Cons.prems(1) f1]
  show ?case
  proof (cases r1)
    case (Raised x)
    with Cons.prems(2) f1 have "r = r1" "s' = s1" by (auto simp: andthen_def)
    with g1 Raised show ?thesis by auto
  next
    case Ok
    with g1 have p1: "is_protected s1" "tb2 s1 = tb2 s" "saved s1 = saved s" by auto
    from Cons.prems(2) f1 Ok have "forward_all e wid mv opr v rest s1 = (r, s')"
      by (auto simp: andthen_def)
    from Cons.IH[OF p1(1) this] p1 show ?thesis by auto
  qed
qed


lemma keeps_guard_cleanup:
  assumes "keeps_guard e"
  shows "is_protected (cleanupx e w s) = is_protected s"
        "tb2 (cleanupx e w s) = tb2 s" "saved (cleanupx e w s) = saved s"
  using assms unfolding keeps_guard_def cleanupx_def by simp_all

lemma channel_master_guard:
  assumes kg: "keeps_guard e" and m: "MasterWeightedCSP st = Some m" and np: "\<not> is_protected s"
    and run: "channel e st opr m varIndex v s = (r, s')" and r: "r = Ok \<or> r = Raised Contradiction"
  shows "\<not> is_protected s' \<and> tb2 s' = tb2 s \<and> (saved s' = saved s \<or> saved s' = tb2 s)"
proof -
  define sd where "sd = deactivatePropagate m s"
  have sd: "\<not> is_protected sd" "tb2 sd = tb2 s" "saved sd = saved s"
    using np by (simp_all add: sd_def deactivatePropagate_def)
  define pre where "pre = (if opr = Assign then callx e (SolverSetvalue m varIndex v) sd else (Ok, sd))"
  obtain r1 s1 where pre: "pre = (r1, s1)" by (cases pre)
  have g1: "\<not> is_protected s1 \<and> tb2 s1 = tb2 s \<and> (saved s1 = saved s \<or> saved s1 = tb2 s)"
    using pre sd callx_guard[OF kg, of "SolverSetvalue m varIndex v" sd r1 s1]
    by (auto simp: pre_def guard_kept_def guard_released_def split: if_splits)
  have run': "andthen (andthen pre (\<lambda>s1. (Ok, protect True s1)))
                 (\<lambda>s2. andthen (forward_all e m varIndex opr v (WeightedCSPConstraints st) s2)
                      (\<lambda>s3. (Ok, unprotect (reactivatePropagate m s3)))) = (r, s')"
    using run m by (auto simp: channel_def origin_def pre_def sd_def)
  show ?thesis
  proof (cases r1)
    case (Raised x)
    with run' pre have "s' = s1" by (simp add: andthen_def)
    with g1 show ?thesis by simp
  next
    case Ok
    define s2 where "s2 = protect True s1"
    have p2: "is_protected s2" "saved s2 = tb2 s" using g1 by (simp_all add: s2_def protect_def Let_def)
    obtain r3 s3 where fa: "forward_all e m varIndex opr v (WeightedCSPConstraints st) s2 = (r3, s3)"
      by (cases "forward_all e m varIndex opr v (WeightedCSPConstraints st) s2")
    note g3 = forward_all_guard[OF kg p2(1) fa]
    from run' pre Ok fa have fin: "andthen (r3, s3) (\<lambda>s3. (Ok, unprotect (reactivatePropagate m s3))) = (r, s')"
      by (simp add: andthen_def s2_def)
    show ?thesis
    proof (cases r3)
      case Ok
      with fin have "s' = unprotect (reactivatePropagate m s3)" by (simp add: andthen_def)
      with g3 Ok p2 show ?thesis by (simp add: unprotect_def reactivatePropagate_def)
    next
      case (Raised x)
      with fin have "r = Raised x" "s' = s3" by (simp_all add: andthen_def)
      with r g3 Raised p2 show ?thesis by auto
    qed
  qed
qed


lemma callx_unprotected:
  assumes "keeps_guard e" "\<not> is_protected s" "callx e c s = (r, s')"
  shows "\<not> is_protected s' \<and> tb2 s' = tb2 s"
  using callx_guard[OF assms(1) assms(3)] assms(2)
  by (auto simp: guard_kept_def guard_released_def)

lemma unprotect_released [simp]: "\<not> is_protected (unprotect s)"
  by (simp add: unprotect_def)

lemma propagate_slave_guard:
  assumes kg: "keeps_guard e" and np: "\<not> is_protected s" and run: "propagate_slave e p s = (r, s')"
  shows "(r = Ok \<longrightarrow> \<not> is_protected s' \<and> tb2 s' = tb2 s) \<and> tb2 (unprotect s') = tb2 s"
proof -
  define s1 where "s1 = protect True s"
  have p1: "is_protected s1" "saved s1 = tb2 s" by (simp_all add: s1_def protect_def Let_def)
  obtain r2 s2 where c: "callx e (Propagate p) s1 = (r2, s2)" by (cases "callx e (Propagate p) s1")
  from callx_guard[OF kg c] p1
  have g: "(is_protected s2 \<and> saved s2 = tb2 s) \<or> (r2 \<noteq> Ok \<and> \<not> is_protected s2 \<and> tb2 s2 = tb2 s)"
    by (auto simp: guard_kept_def guard_released_def)
  from run c have "(r, s') = andthen (r2, s2) (\<lambda>s1. (Ok, unprotect s1))"
    by (simp add: propagate_slave_def s1_def)
  with g show ?thesis
    by (cases r2) (auto simp: andthen_def unprotect_def)
qed

lemma cleanup_slaves_guard:
  assumes "keeps_guard e"
  shows "is_protected (cleanup_slaves e c s) = is_protected s"
        "tb2 (cleanup_slaves e c s) = tb2 s" "saved (cleanup_slaves e c s) = saved s"
  by (simp_all add: cleanup_slaves_def Let_def keeps_guard_cleanup[OF assms] split: option.splits)

lemma propagate_try_guard:
  assumes kg: "keeps_guard e" and np: "\<not> is_protected s" and run: "propagate_try e c s = (r, s')"
  shows "(r = Ok \<longrightarrow> \<not> is_protected s' \<and> tb2 s' = tb2 s) \<and> tb2 (unprotect s') = tb2 s"
proof -
  define first where "first = (case problem c of
          None \<Rightarrow> (Ok, s)
        | Some p \<Rightarrow>
            (if isactivatePropagate p s then
               andthen (propagate_slave e p s)
                 (\<lambda>s1. if strongDuality c \<and> is_connected c s1 \<and> canbeDeconnected c s1
                        then (if getLb p s1 < lb c then (Raised Contradiction, s1)
                              else (Ok, deconnect c s1))
                        else (Ok, s1))
             else (Ok, s)))"
  obtain r1 s1 where f: "first = (r1, s1)" by (cases first)
  have g1: "(r1 = Ok \<longrightarrow> \<not> is_protected s1 \<and> tb2 s1 = tb2 s) \<and> tb2 (unprotect s1) = tb2 s"
  proof (cases "problem c")
    case None
    with f np show ?thesis by (auto simp: first_def unprotect_def)
  next
    case (Some p)
    show ?thesis
    proof (cases "isactivatePropagate p s")
      case False
      with Some f np show ?thesis by (auto simp: first_def unprotect_def)
    next
      case True
      obtain r0 s0 where ps: "propagate_slave e p s = (r0, s0)" by (cases "propagate_slave e p s")
      note g0 = propagate_slave_guard[OF kg np ps]
      from f Some True ps g0 show ?thesis
        by (cases r0) (auto simp: first_def andthen_def unprotect_def split: if_splits)
    qed
  qed
  from run f have run2: "andthen (r1, s1) (\<lambda>s2. if is_connected c s2 then
                (case negproblem c of
                   None \<Rightarrow> (Ok, s2)
                 | Some n \<Rightarrow> (if isactivatePropagate n s2 then propagate_slave e n s2 else (Ok, s2)))
              else (Ok, s2)) = (r, s')"
    by (simp add: propagate_try_def first_def)
  show ?thesis
  proof (cases r1)
    case (Raised x)
    with run2 g1 show ?thesis by (auto simp: andthen_def)
  next
    case Ok
    with g1 have np1: "\<not> is_protected s1" "tb2 s1 = tb2 s" by auto
    from run2 Ok have run3: "(if is_connected c s1 then
                (case negproblem c of
                   None \<Rightarrow> (Ok, s1)
                 | Some n \<Rightarrow> (if isactivatePropagate n s1 then propagate_slave e n s1 else (Ok, s1)))
              else (Ok, s1)) = (r, s')"
      by (simp add: andthen_def)
    have same: "(r, s') = (Ok, s1) \<Longrightarrow> ?thesis"
      using np1 by (simp add: unprotect_def)
    show ?thesis
    proof (cases "is_connected c s1")
      case False
      with run3 same show ?thesis by simp
    next
      case conn: True
      show ?thesis
      proof (cases "negproblem c")
        case None
        with run3 conn same show ?thesis by simp
      next
        case (Some n)
        show ?thesis
        proof (cases "isactivatePropagate n s1")
          case False
          with run3 conn Some same show ?thesis by simp
        next
          case True
          with run3 conn Some have "propagate_slave e n s1 = (r, s')" by simp
          from propagate_slave_guard[OF kg np1(1) this] np1(2) show ?thesis by simp
        qed
      qed
    qed
  qed
qed

lemma propagate_guard:
  assumes kg: "keeps_guard e" and np: "\<not> is_protected s" and run: "propagate e c s = (r, s')"
    and r: "r = Ok \<or> r = Raised Contradiction"
  shows "\<not> is_protected s' \<and> tb2 s' = tb2 s"
proof -
  obtain r1 s1 where c1: "callx e (Revise (cid c)) s = (r1, s1)" by (cases "callx e (Revise (cid c)) s")
  note g1 = callx_unprotected[OF kg np c1]
  define second where "second = (case problem c of None \<Rightarrow> (Ok, s1) | Some p \<Rightarrow> callx e (EnforceUb p) s1)"
  obtain r2 s2 where c2: "second = (r2, s2)" by (cases second)
  have g2: "\<not> is_protected s2 \<and> tb2 s2 = tb2 s"
    using c2 g1 callx_unprotected[OF kg, of s1] by (auto simp: second_def split: option.splits)
  define third where "third = (case negproblem c of None \<Rightarrow> (Ok, s2) | Some n \<Rightarrow> callx e (EnforceUb n) s2)"
  obtain r3 s3 where c3: "third = (r3, s3)" by (cases third)
  have g3: "\<not> is_protected s3 \<and> tb2 s3 = tb2 s"
    using c3 g2 callx_unprotected[OF kg, of s2] by (auto simp: third_def split: option.splits)
  obtain r4 s4 where c4: "callx e (Assigns (cid c)) s3 = (r4, s4)" by (cases "callx e (Assigns (cid c)) s3")
  have g4: "\<not> is_protected s4 \<and> tb2 s4 = tb2 s"
    using callx_unprotected[OF kg _ c4] g3 by auto
  obtain r5 s5 where c5: "propagate_try e c s4 = (r5, s5)" by (cases "propagate_try e c s4")
  have g5: "(r5 = Ok \<longrightarrow> \<not> is_protected s5 \<and> tb2 s5 = tb2 s) \<and> tb2 (unprotect s5) = tb2 s"
    using propagate_try_guard[OF kg _ c5] g4 by auto
  have cl: "tb2 (unprotect (cleanup_slaves e c s5)) = tb2 (unprotect s5)"
    by (simp add: unprotect_def cleanup_slaves_guard[OF kg])
  from run c1 have e1: "r1 \<noteq> Ok \<Longrightarrow> s' = s1" by (auto simp: propagate_def andthen_def split: outcome.splits)
  from run c1 c2 have e2: "r1 = Ok \<Longrightarrow> r2 \<noteq> Ok \<Longrightarrow> s' = s2"
    by (auto simp: propagate_def andthen_def second_def split: outcome.splits)
  from run c1 c2 c3 have e3: "r1 = Ok \<Longrightarrow> r2 = Ok \<Longrightarrow> r3 \<noteq> Ok \<Longrightarrow> s' = s3"
    by (auto simp: propagate_def andthen_def second_def third_def split: outcome.splits)
  from run c1 c2 c3 c4 have e4: "r1 = Ok \<Longrightarrow> r2 = Ok \<Longrightarrow> r3 = Ok \<Longrightarrow> r4 \<noteq> Ok \<Longrightarrow> s' = s4"
    by (auto simp: propagate_def andthen_def second_def third_def split: outcome.splits)
  from run c1 c2 c3 c4 c5 have e5: "r1 = Ok \<Longrightarrow> r2 = Ok \<Longrightarrow> r3 = Ok \<Longrightarrow> r4 = Ok \<Longrightarrow>
       (r, s') = (if is_connected c s4 then
         catch_contradiction (r5, s5)
           (\<lambda>s5. (Raised Contradiction, unprotect (cleanup_slaves e c s5)))
       else (Ok, s4))"
    by (auto simp: propagate_def andthen_def second_def third_def split: outcome.splits)
  show ?thesis
  proof (cases "r1 = Ok \<and> r2 = Ok \<and> r3 = Ok \<and> r4 = Ok")
    case False
    with e1 e2 e3 e4 g1 g2 g3 g4 show ?thesis by metis
  next
    case True
    with e5 have "(r, s') = (if is_connected c s4 then
         catch_contradiction (r5, s5)
           (\<lambda>s5. (Raised Contradiction, unprotect (cleanup_slaves e c s5)))
       else (Ok, s4))" by simp
    with g4 g5 cl r show ?thesis
      by (auto simp: catch_contradiction_def split: if_splits outcome.splits exn.splits)
  qed
qed

subsection \<open>eval: the store, the activation flags and the guard\<close>


lemma callx_store:
  assumes "keeps_store e" "callx e c s = (r, s')"
  shows "trail s' = trail s \<and> active s' = active s"
proof -
  obtain r0 s0 where x: "ext e c s = (r0, s0)" by (cases "ext e c s")
  from assms(1) have "trail (snd (ext e c s)) = trail s \<and> active (snd (ext e c s)) = active s"
    unfolding keeps_store_def by blast
  with x assms(2) show ?thesis by (auto simp: callx_def)
qed

lemma callx_outcome:
  assumes "raises_only_contradiction e" "callx e c s = (r, s')"
  shows "r = Ok \<or> r = Raised Contradiction"
proof -
  from assms(1) have "fst (ext e c s) \<in> {Ok, Raised Contradiction}"
    unfolding raises_only_contradiction_def by blast
  with assms(2) show ?thesis by (auto simp: callx_def split: prod.splits)
qed

lemma cleanup_slaves_store:
  assumes "keeps_store e"
  shows "trail (cleanup_slaves e c s) = trail s" "active (cleanup_slaves e c s) = active s"
  using assms unfolding keeps_store_def cleanup_slaves_def cleanupx_def
  by (simp_all add: Let_def split: option.splits)

lemma pop_to_stop: "length bs \<le> d \<Longrightarrow> pop_to d c bs = (c, bs)"
  by (cases bs) simp_all

lemma restore_store:
  assumes "trail s' = b # bs" "d = length bs"
  shows "cur (restore d s') = b" "trail (restore d s') = bs"
  using assms by (simp_all add: restore_def pop_to_stop)

lemma restore_frame [simp]:
  "is_protected (restore d s) = is_protected s" "tb2 (restore d s) = tb2 s" "saved (restore d s) = saved s"
  "active (restore d s) = active s" "trace (restore d s) = trace s" "installed (restore d s) = installed s"
  by (simp_all add: restore_def split: prod.splits)

lemma eval_slave_post:
  assumes kg: "keeps_guard e" and ks: "keeps_store e" and ro: "raises_only_contradiction e"
    and p: "is_protected s" and run: "eval_slave e p viol idxs vals s = (r, a, u, s')"
  shows "trail s' = trail s
       \<and> (if a then active s' else (active s')(p := False)) = active s
       \<and> (r = Ok \<or> r = Raised Contradiction)
       \<and> tb2 (unprotect s') = saved s"
proof -
  obtain r1 s1 where c1: "callx e (EnforceUb p) s = (r1, s1)" by (cases "callx e (EnforceUb p) s")
  note st1 = callx_store[OF ks c1] and o1 = callx_outcome[OF ro c1] and g1 = callx_guard[OF kg c1]
  have u1: "tb2 (unprotect s1) = saved s"
    using g1 p by (auto simp: guard_kept_def guard_released_def unprotect_def)
  show ?thesis
  proof (cases r1)
    case (Raised x)
    with run c1 have "r = r1" "a" "s' = s1" by (simp_all add: eval_slave_def)
    with st1 o1 u1 show ?thesis by simp
  next
    case Ok
    with g1 have p1: "is_protected s1" "saved s1 = saved s"
      using p by (auto simp: guard_kept_def)
    define s2 where "s2 = reactivatePropagate p s1"
    have p2: "is_protected s2" "saved s2 = saved s" "trail s2 = trail s" "active s2 = (active s)(p := True)"
      using p1 st1 by (simp_all add: s2_def reactivatePropagate_def)
    obtain r3 s3 where c3: "callx e (AssignLS p idxs vals) s2 = (r3, s3)"
      by (cases "callx e (AssignLS p idxs vals) s2")
    note st3 = callx_store[OF ks c3] and o3 = callx_outcome[OF ro c3] and g3 = callx_guard[OF kg c3]
    have u3: "tb2 (unprotect s3) = saved s"
      using g3 p2 by (auto simp: guard_kept_def guard_released_def unprotect_def)
    from run c1 Ok c3 have res: "r = r3" "a = active s p" "s' = s3"
      using st1 by (auto simp: eval_slave_def Let_def s2_def isactivatePropagate_def split: outcome.splits)
    have "(if a then active s' else (active s')(p := False)) = active s"
      using res st3 p2 by (auto simp: fun_eq_iff)
    with res st3 p2 o3 u3 show ?thesis by simp
  qed
qed


lemma eval_finish_post:
  assumes tr: "trail s3 = b # bs" and run: "eval_finish maxc c (length bs) pa na us s3 = (k, s4)"
  shows "trail s4 = bs \<and> cur s4 = b \<and> \<not> is_protected s4 \<and> tb2 s4 = tb2 (unprotect s3)
       \<and> installed s4 = hooks_installed
       \<and> k = (if us then maxc else MIN_COST)
       \<and> active s4 =
           after_deactivations c pa na (active s3)"
  using run restore_store[OF tr refl]
  by (cases pa; cases na; cases "problem c"; cases "negproblem c")
     (auto simp: eval_finish_def Let_def unprotect_def deactivatePropagate_def after_deactivations_def)

subsection \<open>The example family\<close>

lemma ex_constructed:
  "map_sum id (\<lambda>(c, st, s). (c, st))
     (WeightedCSPConstraint ex_env statics_init 0 0 [0, 1] (Some ex_problem) (Some ex_negproblem)
        1 5 False False ex_state) = Inr (ex_ctr, ex_statics)"
  by (simp add: WeightedCSPConstraint_def new_constraint_def register_keys_def register_slave_def
      callx_def ex_env_def ex_problem_def ex_negproblem_def statics_init_def ex_ctr_def ex_statics_def
      MIN_COST_def Let_def)

lemma ex_env_keeps_guard: "keeps_guard ex_env"
  by (simp add: keeps_guard_def ex_env_def guard_kept_def)

lemma ex_env_fail_keeps_guard: "keeps_guard ex_env_fail"
  by (auto simp: keeps_guard_def ex_env_fail_def guard_kept_def split: call.splits)

lemma ex_env_probe_keeps_guard: "keeps_guard ex_env_probe"
  by (auto simp: keeps_guard_def ex_env_probe_def guard_kept_def split: call.splits)

lemma ex_env_probe_keeps_store: "keeps_store ex_env_probe"
  by (auto simp: keeps_store_def ex_env_probe_def split: call.splits)

lemma ex_env_probe_raises: "raises_only_contradiction ex_env_probe"
  by (auto simp: raises_only_contradiction_def ex_env_probe_def split: call.splits)

lemma ex_state_unprotected: "\<not> is_protected ex_state"
  by (simp add: ex_state_def)

subsection \<open>A callback for an event of a slave\<close>

lemma channel_slave_guard:
  assumes kg: "keeps_guard e" and m: "MasterWeightedCSP st = Some m" and sl: "wcspId \<noteq> m"
    and p: "is_protected s" and run: "channel e st opr wcspId varIndex v s = (r, s')"
  shows "(r = Ok \<longrightarrow> is_protected s' \<and> tb2 s' = disabled_flags \<and> saved s' = saved s)
       \<and> (r = Raised Contradiction \<longrightarrow> \<not> is_protected s' \<and> tb2 s' = saved s)"
proof (cases "origin st m wcspId varIndex")
  case None
  with run m show ?thesis by (auto simp: channel_def)
next
  case (Some wm)
  obtain w mv where wm: "wm = (w, mv)" by (cases wm)
  define s0 where "s0 = unprotect (deactivatePropagate w s)"
  have s0: "\<not> is_protected s0" "tb2 s0 = saved s" "saved s0 = saved s"
    using p by (simp_all add: s0_def unprotect_def deactivatePropagate_def)
  obtain r1 s1 where c1: "callx e (VarOp m mv opr v) s0 = (r1, s1)"
    by (cases "callx e (VarOp m mv opr v) s0")
  from callx_guard[OF kg c1] s0 have g1: "\<not> is_protected s1" "tb2 s1 = saved s" "saved s1 = saved s"
    by (auto simp: guard_kept_def guard_released_def)
  from run m Some wm sl c1 have run2:
    "andthen (andthen (r1, s1) (\<lambda>s1. (Ok, protect False s1)))
        (\<lambda>s2. andthen (forward_all e wcspId mv opr v (WeightedCSPConstraints st) s2)
                 (\<lambda>s3. (Ok, reactivatePropagate w s3))) = (r, s')"
    by (simp add: channel_def s0_def)
  show ?thesis
  proof (cases r1)
    case (Raised x)
    with run2 have "r = Raised x" "s' = s1" by (simp_all add: andthen_def)
    with g1 show ?thesis by simp
  next
    case Ok
    define s2 where "s2 = protect False s1"
    have s2: "is_protected s2" "tb2 s2 = disabled_flags" "saved s2 = saved s"
      using g1 by (simp_all add: s2_def protect_def)
    obtain r3 s3 where fa: "forward_all e wcspId mv opr v (WeightedCSPConstraints st) s2 = (r3, s3)"
      by (cases "forward_all e wcspId mv opr v (WeightedCSPConstraints st) s2")
    note g3 = forward_all_guard[OF kg s2(1) fa]
    from run2 Ok fa have fin: "andthen (r3, s3) (\<lambda>s3. (Ok, reactivatePropagate w s3)) = (r, s')"
      by (simp add: andthen_def s2_def)
    show ?thesis
    proof (cases r3)
      case Ok
      with fin have "r = Ok" "s' = reactivatePropagate w s3" by (simp_all add: andthen_def)
      with g3 Ok s2 show ?thesis by (simp add: reactivatePropagate_def)
    next
      case (Raised x)
      with fin have "r = Raised x" "s' = s3" by (simp_all add: andthen_def)
      with g3 Raised s2 show ?thesis by auto
    qed
  qed
qed

text \<open>The callbacks themselves keep the guard in the sense in which the called code is
  assumed to (\<open>keeps_guard\<close>): a callback for an event of the master entered outside a
  protected region, and a callback for an event of a slave entered inside one.\<close>

lemma callbacks_keep_guard:
  assumes kg: "keeps_guard e" and m: "MasterWeightedCSP st = Some m"
    and entry: "if wcspId = m then \<not> is_protected s else is_protected s \<and> tb2 s = disabled_flags"
    and run: "channel e st opr wcspId varIndex v s = (r, s')"
    and out: "r = Ok \<or> r = Raised Contradiction"
  shows "guard_kept s s' \<or> (r \<noteq> Ok \<and> guard_released s s')"
proof (cases "wcspId = m")
  case True
  with entry have np: "\<not> is_protected s" by simp
  from run True have "channel e st opr m varIndex v s = (r, s')" by simp
  from channel_master_guard[OF kg m np this out] np show ?thesis
    by (simp add: guard_kept_def)
next
  case False
  with entry have p: "is_protected s" "tb2 s = disabled_flags" by simp_all
  have sv: "saved s' = saved s"
  proof (cases "origin st m wcspId varIndex")
    case None
    with run m show ?thesis by (auto simp: channel_def)
  next
    case (Some wm)
    obtain w mv where wm: "wm = (w, mv)" by (cases wm)
    define s0 where "s0 = unprotect (deactivatePropagate w s)"
    have s0: "\<not> is_protected s0" "tb2 s0 = saved s" "saved s0 = saved s"
      using p by (simp_all add: s0_def unprotect_def deactivatePropagate_def)
    obtain r1 s1 where c1: "callx e (VarOp m mv opr v) s0 = (r1, s1)"
      by (cases "callx e (VarOp m mv opr v) s0")
    from callx_guard[OF kg c1] s0 have g1: "\<not> is_protected s1" "saved s1 = saved s"
      by (auto simp: guard_kept_def guard_released_def)
    from run m Some wm False c1 have run2:
      "andthen (andthen (r1, s1) (\<lambda>s1. (Ok, protect False s1)))
        (\<lambda>s2. andthen (forward_all e wcspId mv opr v (WeightedCSPConstraints st) s2)
                 (\<lambda>s3. (Ok, reactivatePropagate w s3))) = (r, s')"
      by (simp add: channel_def s0_def)
    show ?thesis
    proof (cases r1)
      case (Raised x)
      with run2 have "s' = s1" by (simp add: andthen_def)
      with g1 show ?thesis by simp
    next
      case Ok
      define s2 where "s2 = protect False s1"
      have s2: "is_protected s2" "saved s2 = saved s" using g1 by (simp_all add: s2_def protect_def)
      obtain r3 s3 where fa: "forward_all e wcspId mv opr v (WeightedCSPConstraints st) s2 = (r3, s3)"
        by (cases "forward_all e wcspId mv opr v (WeightedCSPConstraints st) s2")
      note g3 = forward_all_guard[OF kg s2(1) fa]
      from run2 Ok fa have fin: "andthen (r3, s3) (\<lambda>s3. (Ok, reactivatePropagate w s3)) = (r, s')"
        by (simp add: andthen_def s2_def)
      from out have "r3 = Ok \<or> r3 = Raised Contradiction"
        using fin by (cases r3) (auto simp: andthen_def)
      with g3 s2 fin show ?thesis
        by (auto simp: andthen_def reactivatePropagate_def)
    qed
  qed
  from channel_slave_guard[OF kg m False p(1) run] out p sv show ?thesis
    by (auto simp: guard_kept_def guard_released_def)
qed

subsection \<open>The table stays sorted\<close>

text \<open>The constructor keeps the table in ascending key order, with the new constraint
  under the index of each of its slaves.\<close>

lemma map_assign_keys: "set (map fst (map_assign k v tbl)) = insert k (set (map fst tbl))"
  by (induction k v tbl rule: map_assign.induct) auto

lemma map_assign_sorted:
  "sorted_wrt (<) (map fst tbl) \<Longrightarrow> sorted_wrt (<) (map fst (map_assign k v tbl))"
proof (induction tbl)
  case Nil
  then show ?case by simp
next
  case (Cons a tbl)
  obtain k' v' where a: "a = (k', v')" by (cases a)
  from Cons show ?case
    using map_assign_keys[of k v tbl] by (auto simp: a simp del: set_map)
qed

lemma map_assign_lookup: "map_of (map_assign k v tbl) = (map_of tbl)(k \<mapsto> v)"
  by (induction tbl) (auto simp: fun_eq_iff)

lemma constructor_table_sorted:
  assumes "sorted_wrt (<) (map fst (WeightedCSPConstraints st))"
    and "WeightedCSPConstraint e st this w scope_in problem_in negproblem_in lb_in ub_in
           duplicateHard strongDuality_in s = Inr (c, st', s')"
  shows "sorted_wrt (<) (map fst (WeightedCSPConstraints st'))
       \<and> (\<forall>p. problem_in = Some p \<or> negproblem_in = Some p \<longrightarrow>
              map_of (WeightedCSPConstraints st') (getIndex p) = Some c)"
proof -
  define tbl0 where "tbl0 = (if MasterWeightedCSP st \<noteq> None \<and> MasterWeightedCSP st \<noteq> Some w
                    then [] else WeightedCSPConstraints st)"
  have s0: "sorted_wrt (<) (map fst tbl0)" using assms(1) by (simp add: tbl0_def)
  from assms(2) have st': "WeightedCSPConstraints st' = register_keys c problem_in negproblem_in tbl0"
    by (auto simp: WeightedCSPConstraint_def Let_def tbl0_def split: if_splits prod.splits outcome.splits)
  show ?thesis
    unfolding st' using s0
    by (auto simp: register_keys_def Let_def map_assign_sorted map_assign_lookup split: option.splits)
qed

section \<open>The claims\<close>

text \<open>
  C10. Every attempt to construct a \<^verbatim>\<open>WeightedCSPConstraint\<close> with \<open>lb_in\<close> greater than
  or equal to \<open>ub_in\<close> throws \<^verbatim>\<open>WrongFileFormat\<close>: a meta-constraint whose window
  \<open>[lb, ub)\<close> is empty is never created. The message printed before the throw is output
  only and is not modelled.
\<close>

theorem constructor_rejects_empty_window:
  "ub_in \<le> lb_in \<Longrightarrow>
   WeightedCSPConstraint e st this w scope_in problem_in negproblem_in lb_in ub_in
     duplicateHard strongDuality_in s = Inl WrongFileFormat"
  by (simp add: WeightedCSPConstraint_def)

theorem constructor_rejects_empty_window_witness:
  "WeightedCSPConstraint ex_env statics_init 0 0 [0, 1] (Some ex_problem) (Some ex_negproblem)
     5 5 False False ex_state = Inl WrongFileFormat"
  using constructor_rejects_empty_window [of 5 5 ex_env statics_init 0 0 "[0, 1]" "Some ex_problem"
      "Some ex_negproblem" False False ex_state]
  by simp

text \<open>The equivalence of C1 at the example constraint: not universal while the slaves'
  lower bounds are 0, universal once both are 1, not universal without the negated slave.\<close>

theorem universal_iff_witness:
  "\<not> universal ex_ctr ex_state
   \<and> universal ex_ctr (ex_state\<lparr>cur := ex_bt\<lparr>lbs := (\<lambda>w. 1)\<rparr>\<rparr>)
   \<and> \<not> universal (ex_ctr\<lparr>negproblem := None\<rparr>) (ex_state\<lparr>cur := ex_bt\<lparr>lbs := (\<lambda>w. 1)\<rparr>\<rparr>)"
  using universal_iff [of ex_ctr ex_state]
    universal_iff [of ex_ctr "ex_state\<lparr>cur := ex_bt\<lparr>lbs := (\<lambda>w. 1)\<rparr>\<rparr>"]
    universal_iff [of "ex_ctr\<lparr>negproblem := None\<rparr>" "ex_state\<lparr>cur := ex_bt\<lparr>lbs := (\<lambda>w. 1)\<rparr>\<rparr>"]
  by (simp add: ex_ctr_def ex_state_def ex_bt_def)

text \<open>
  C3. For every tuple \<open>t\<close> whose length is the size of the scope, \<^verbatim>\<open>eval(t)\<close> leaves the
  solver state unchanged: it records the depth of the store, assigns the tuple in the
  slave (or the negated slave), reads its lower bound, and restores the store to the depth
  before the call and the slaves' activation status on every path, also when
  \<^verbatim>\<open>assignLS\<close> raises a contradiction. Here: when the called code keeps the guard, the
  trail and the activation flags and raises nothing but contradictions, \<^verbatim>\<open>eval\<close> called
  outside a protected region returns a cost (\<^verbatim>\<open>MIN_COST\<close> or \<^verbatim>\<open>MAX_COST\<close>) and leaves
  the depth and contents of the store, the current backtrackable data, every activation
  flag, the guard and the ten options as they were, with the four hooks installed.
\<close>

theorem eval_restores:
  assumes kg: "keeps_guard e" and ks: "keeps_store e" and ro: "raises_only_contradiction e"
    and np: "\<not> is_protected s" and ar: "length t = length (scope c)"
  shows "\<exists>k s'. eval e maxc c t s = (Inr k, s') \<and> (k = MIN_COST \<or> k = maxc)
           \<and> getDepth s' = getDepth s \<and> trail s' = trail s \<and> cur s' = cur s
           \<and> active s' = active s \<and> \<not> is_protected s' \<and> tb2 s' = tb2 s
           \<and> installed s' = hooks_installed"
proof -
  define vals where "vals = map (\<lambda>(v, i). toValue e v i) (zip (scope c) t)"
  define idxs where "idxs = [0..<length (scope c)]"
  define s2 where "s2 = store (protect True (s\<lparr>installed := hooks_null\<rparr>))"
  have s2: "is_protected s2" "saved s2 = tb2 s" "trail s2 = cur s # trail s" "active s2 = active s"
    by (simp_all add: s2_def store_def protect_def Let_def)
  have depth: "getDepth (protect True (s\<lparr>installed := hooks_null\<rparr>)) = length (trail s)"
    by (simp add: getDepth_def protect_def Let_def)
  define body where "body =
             (case problem c of
                Some p \<Rightarrow>
                  (case eval_slave e p (\<lambda>l. l < lb c) idxs vals s2 of
                     (r, a, u, s') \<Rightarrow> (r, a, True, u, s'))
              | None \<Rightarrow>
                  (case negproblem c of
                     Some n \<Rightarrow>
                       (case eval_slave e n (\<lambda>l. l \<le> - ub c + negCost c) idxs vals s2 of
                          (r, a, u, s') \<Rightarrow> (r, True, a, u, s'))
                   | None \<Rightarrow> (Ok, True, True, False, s2)))"
  obtain r pa na us s3 where body: "body = (r, pa, na, us, s3)" by (cases body)
  have post: "trail s3 = cur s # trail s \<and> (r = Ok \<or> r = Raised Contradiction)
        \<and> tb2 (unprotect s3) = tb2 s
        \<and> after_deactivations c pa na (active s3) = active s"
  proof (cases "problem c")
    case (Some p)
    obtain r0 a0 u0 s0 where es: "eval_slave e p (\<lambda>l. l < lb c) idxs vals s2 = (r0, a0, u0, s0)"
      by (cases "eval_slave e p (\<lambda>l. l < lb c) idxs vals s2")
    from body Some es have eq: "r = r0" "pa = a0" "na" "s3 = s0" by (simp_all add: body_def)
    from eval_slave_post[OF kg ks ro s2(1) es] s2 eq Some show ?thesis
      by (auto simp: Let_def after_deactivations_def)
  next
    case None
    show ?thesis
    proof (cases "negproblem c")
      case nn: None
      with None body have "r = Ok" "pa" "na" "s3 = s2" by (simp_all add: body_def)
      with s2 show ?thesis by (simp add: unprotect_def after_deactivations_def)
    next
      case (Some n)
      obtain r0 a0 u0 s0 where es: "eval_slave e n (\<lambda>l. l \<le> - ub c + negCost c) idxs vals s2 = (r0, a0, u0, s0)"
        by (cases "eval_slave e n (\<lambda>l. l \<le> - ub c + negCost c) idxs vals s2")
      from body None Some es have eq: "r = r0" "na = a0" "pa" "s3 = s0" by (simp_all add: body_def)
      from eval_slave_post[OF kg ks ro s2(1) es] s2 eq Some None show ?thesis
        by (auto simp: Let_def after_deactivations_def)
    qed
  qed
  have ev: "eval e maxc c t s =
      (case r of
            Ok \<Rightarrow> (case eval_finish maxc c (length (trail s)) pa na us s3 of (k, s4) \<Rightarrow> (Inr k, s4))
          | Raised Contradiction \<Rightarrow>
              (case eval_finish maxc c (length (trail s)) pa na True (cleanup_slaves e c s3) of
                 (k, s4) \<Rightarrow> (Inr k, s4))
          | Raised x \<Rightarrow> (Inl x, s3))"
    using body unfolding eval_def Let_def body_def vals_def idxs_def s2_def depth
    by simp
  from post have rr: "r = Ok \<or> r = Raised Contradiction" by simp
  then show ?thesis
  proof
    assume ok: "r = Ok"
    obtain k s4 where f: "eval_finish maxc c (length (trail s)) pa na us s3 = (k, s4)"
      by (cases "eval_finish maxc c (length (trail s)) pa na us s3")
    from post have tr: "trail s3 = cur s # trail s" by simp
    from eval_finish_post[OF tr f] post ev ok f show ?thesis
      by (auto simp: getDepth_def)
  next
    assume ct: "r = Raised Contradiction"
    obtain k s4 where f: "eval_finish maxc c (length (trail s)) pa na True (cleanup_slaves e c s3) = (k, s4)"
      by (cases "eval_finish maxc c (length (trail s)) pa na True (cleanup_slaves e c s3)")
    from post have tr: "trail (cleanup_slaves e c s3) = cur s # trail s"
      by (simp add: cleanup_slaves_store[OF ks])
    have same: "active (cleanup_slaves e c s3) = active s3"
      "tb2 (unprotect (cleanup_slaves e c s3)) = tb2 (unprotect s3)"
      by (simp_all add: cleanup_slaves_store[OF ks] unprotect_def cleanup_slaves_guard[OF kg])
    from eval_finish_post[OF tr f] have fin: "trail s4 = trail s" "cur s4 = cur s" "\<not> is_protected s4"
      "tb2 s4 = tb2 s" "k = maxc" "active s4 = active s" "installed s4 = hooks_installed"
      using post same by simp_all
    from ev ct f have "eval e maxc c t s = (Inr k, s4)" by simp
    with fin show ?thesis by (simp add: getDepth_def)
  qed
qed


theorem eval_restores_witness:
  "fst (eval ex_env_probe 1000 ex_ctr [0, 1] ex_state) = Inr 1000
   \<and> cur (snd (eval ex_env_probe 1000 ex_ctr [0, 1] ex_state)) = cur ex_state
   \<and> getDepth (snd (eval ex_env_probe 1000 ex_ctr [0, 1] ex_state)) = getDepth ex_state
   \<and> active (snd (eval ex_env_probe 1000 ex_ctr [0, 1] ex_state)) = active ex_state"
proof -
  have ar: "length [0, 1 :: nat] = length (scope ex_ctr)" by (simp add: ex_ctr_def)
  have r: "fst (eval ex_env_probe 1000 ex_ctr [0, 1] ex_state) = Inr 1000" by code_simp
  from eval_restores [OF ex_env_probe_keeps_guard ex_env_probe_keeps_store ex_env_probe_raises
      ex_state_unprotected ar, of 1000] r
  show ?thesis by auto
qed

text \<open>
  C5 (as amended). Every channelled event callback re-enables propagation in the
  originating problem before it returns normally. (On the path where a forwarded operation
  raises a contradiction the callback cleans up the target, releases the guard and
  re-raises; it does not itself re-enable propagation in the originating problem there.)
\<close>

theorem callback_reactivates_on_return:
  assumes "MasterWeightedCSP st = Some m" and "origin st m wcspId varIndex = Some (w, masterVar)"
    and "channel e st opr wcspId varIndex v s = (Ok, s')"
  shows "isactivatePropagate w s'"
  using assms
  by (auto simp: channel_def andthen_def isactivatePropagate_def reactivatePropagate_def unprotect_def
      split: outcome.splits if_splits prod.splits)

theorem callback_reactivates_on_return_witness:
  "isactivatePropagate 0 (snd (tb2setvalue ex_env ex_statics 0 0 1 (deactivatePropagate 0 ex_state)))"
proof -
  have 1: "MasterWeightedCSP ex_statics = Some 0" by (simp add: ex_statics_def)
  have 2: "origin ex_statics 0 0 0 = Some (0, 0)" by (simp add: origin_def)
  have 3: "fst (channel ex_env ex_statics Assign 0 0 1 (deactivatePropagate 0 ex_state)) = Ok"
    by code_simp
  obtain s' where 4: "channel ex_env ex_statics Assign 0 0 1 (deactivatePropagate 0 ex_state) = (Ok, s')"
    using 3 by (cases "channel ex_env ex_statics Assign 0 0 1 (deactivatePropagate 0 ex_state)") auto
  from callback_reactivates_on_return [OF 1 2 4] 4 show ?thesis
    by (simp add: tb2setvalue_def)
qed

text \<open>The claim as stated fails on the contradiction path: the master's propagation is
  active before the event, a forwarded assignment raises a contradiction, and the callback
  re-raises it with the master's propagation still disabled.\<close>

theorem callback_contradiction_counterexample:
  "isactivatePropagate 0 ex_state
   \<and> fst (tb2setvalue ex_env_fail ex_statics 0 0 1 ex_state) = Raised Contradiction
   \<and> \<not> isactivatePropagate 0 (snd (tb2setvalue ex_env_fail ex_statics 0 0 1 ex_state))"
  by code_simp

text \<open>
  C4 (as amended). Whenever a channelled event callback for an event of the master, or
  \<^verbatim>\<open>propagate()\<close>, is entered with the flag \<^verbatim>\<open>_protected_\<close> false, the flag is false
  again and the ten options have their entry values when the call exits, on normal return
  and when it re-raises a contradiction. The called code is any code that keeps the guard
  in the sense of \<open>keeps_guard\<close>. (A callback for an event of a slave is written to run
  inside its caller's protected region: it re-acquires the guard without saving and
  returns with the guard held.)
\<close>

theorem guard_released_on_exit:
  assumes kg: "keeps_guard e" and m: "MasterWeightedCSP st = Some m" and np: "\<not> is_protected s"
    and run: "r = channel e st opr m varIndex v s \<or> r = propagate e c s"
    and out: "fst r = Ok \<or> fst r = Raised Contradiction"
  shows "\<not> is_protected (snd r) \<and> tb2 (snd r) = tb2 s"
proof -
  from run show ?thesis
  proof
    assume "r = channel e st opr m varIndex v s"
    then have "channel e st opr m varIndex v s = (fst r, snd r)" by simp
    from channel_master_guard [OF kg m np this out] show ?thesis by simp
  next
    assume "r = propagate e c s"
    then have "propagate e c s = (fst r, snd r)" by simp
    from propagate_guard [OF kg np this out] show ?thesis .
  qed
qed

theorem guard_released_on_exit_witness:
  "fst (tb2setvalue ex_env_fail ex_statics 0 0 1 ex_state) = Raised Contradiction
   \<and> \<not> is_protected (snd (tb2setvalue ex_env_fail ex_statics 0 0 1 ex_state))
   \<and> tb2 (snd (tb2setvalue ex_env_fail ex_statics 0 0 1 ex_state)) = tb2 ex_state
   \<and> fst (propagate ex_env ex_ctr ex_state) = Ok
   \<and> \<not> is_protected (snd (propagate ex_env ex_ctr ex_state))
   \<and> tb2 (snd (propagate ex_env ex_ctr ex_state)) = tb2 ex_state"
proof -
  have m: "MasterWeightedCSP ex_statics = Some 0" by (simp add: ex_statics_def)
  have o1: "fst (tb2setvalue ex_env_fail ex_statics 0 0 1 ex_state) = Raised Contradiction"
    by code_simp
  have o2: "fst (propagate ex_env ex_ctr ex_state) = Ok" by code_simp
  from guard_released_on_exit [OF ex_env_fail_keeps_guard m ex_state_unprotected,
      of "tb2setvalue ex_env_fail ex_statics 0 0 1 ex_state" Assign 0 1 ex_ctr] o1
  have a: "\<not> is_protected (snd (tb2setvalue ex_env_fail ex_statics 0 0 1 ex_state))
   \<and> tb2 (snd (tb2setvalue ex_env_fail ex_statics 0 0 1 ex_state)) = tb2 ex_state"
    by (simp add: tb2setvalue_def)
  from guard_released_on_exit [OF ex_env_keeps_guard m ex_state_unprotected,
      of "propagate ex_env ex_ctr ex_state" Assign 0 1 ex_ctr] o2
  have b: "\<not> is_protected (snd (propagate ex_env ex_ctr ex_state))
   \<and> tb2 (snd (propagate ex_env ex_ctr ex_state)) = tb2 ex_state"
    by simp
  from o1 o2 a b show ?thesis by simp
qed

text \<open>The claim as stated fails for a callback of a slave's event: entered with the flag
  false in the example family, \<^verbatim>\<open>tb2setvalue\<close> for slave 1 returns normally with the flag
  true and the options switched off.\<close>

theorem slave_callback_keeps_guard_counterexample:
  "\<not> is_protected ex_state
   \<and> fst (tb2setvalue ex_env ex_statics 1 0 1 ex_state) = Ok
   \<and> is_protected (snd (tb2setvalue ex_env ex_statics 1 0 1 ex_state))
   \<and> tb2 (snd (tb2setvalue ex_env ex_statics 1 0 1 ex_state)) \<noteq> tb2 ex_state"
  by code_simp

subsection \<open>The trace of a callback\<close>


lemma deconnect_trace: "trace (deconnect c s) = trace s"
  by simp























text \<open>An event of slave 2 whose forwarding to slave 1 raises a contradiction: the master
  variable first, then the calls up to the one that raises.\<close>

lemma forwarding_stops_example:
  "fst (tb2setmin ex_env_fail ex_statics 2 1 1 ex_state) = Raised Contradiction
   \<and> trace (snd (tb2setmin ex_env_fail ex_statics 2 1 1 ex_state))
       = [VarOp 0 1 Increase 1, EnforceUb 1, VarOp 1 1 Increase 1]"
  by code_simp


subsection \<open>Deconnection\<close>

lemma connected_at_deconnect_at:
  "connected_at c j (deconnect_at c i s) = (connected_at c j s \<and> j \<noteq> i)"
  by (auto simp: connected_at_def deconnect_at_def nth_list_update)

lemma connected_at_fold_deconnect_at:
  "connected_at c j (fold (deconnect_at c) is s) = (connected_at c j s \<and> j \<notin> set is)"
  by (induction "is" arbitrary: s) (auto simp: connected_at_deconnect_at)

lemma deconnect_disconnects: "\<not> is_connected c (deconnect c s)"
  by (auto simp: is_connected_def deconnect_def list_ex_iff connected_at_fold_deconnect_at)

lemma nonassigned_deconnect_at: "nonassigned (cur (deconnect_at c i s)) = nonassigned (cur s)"
  by (simp add: deconnect_at_def)

text \<open>
  C6 (as amended). For every connected scope position \<open>i\<close>, \<^verbatim>\<open>assign(i)\<close> deconnects the
  position and decrements the backtrackable counter \<^verbatim>\<open>nonassigned\<close> by one. It then
  deconnects the whole constraint if it has become universal; otherwise it deconnects and
  projects it as an n-ary table when the counter is at most \<^verbatim>\<open>NARYPROJECTIONSIZE\<close> and,
  under strong duality, only when the counter is zero; and otherwise it propagates.
\<close>

theorem assign_steps:
  assumes "connected_at c varIndex s"
  shows "\<exists>s1. getNonAssigned c s1 = getNonAssigned c s - 1 \<and> \<not> connected_at c varIndex s1
           \<and> \<not> is_connected c (deconnect c s1)
           \<and> assign e c varIndex s =
               (if universal c s1 then (Ok, deconnect c s1)
                else if getNonAssigned c s1 \<le> NARYPROJECTIONSIZE
                        \<and> (\<not> strongDuality c \<or> getNonAssigned c s1 = 0)
                     then callx e (ProjectNary (cid c)) (deconnect c s1)
                     else propagate e c s1)"
proof -
  define s1 where "s1 = dec_nonassigned c (deconnect_at c varIndex s)"
  have 1: "getNonAssigned c s1 = getNonAssigned c s - 1"
    by (simp add: s1_def getNonAssigned_def dec_nonassigned_def nonassigned_deconnect_at)
  have "connected_at c varIndex s1 = connected_at c varIndex (deconnect_at c varIndex s)"
    by (simp add: s1_def connected_at_def dec_nonassigned_def)
  then have 2: "\<not> connected_at c varIndex s1"
    by (simp add: connected_at_deconnect_at)
  have 3: "\<not> is_connected c (deconnect c s1)" by (rule deconnect_disconnects)
  from assms have 4: "assign e c varIndex s =
               (if universal c s1 then (Ok, deconnect c s1)
                else if getNonAssigned c s1 \<le> NARYPROJECTIONSIZE
                        \<and> (\<not> strongDuality c \<or> getNonAssigned c s1 = 0)
                     then callx e (ProjectNary (cid c)) (deconnect c s1)
                     else propagate e c s1)"
    by (auto simp: assign_def Let_def s1_def)
  from 1 2 3 4 show ?thesis by blast
qed

theorem assign_steps_witness:
  "getNonAssigned ex_ctr (snd (assign ex_env ex_ctr 0 ex_state)) = getNonAssigned ex_ctr ex_state - 1
   \<and> \<not> is_connected ex_ctr (snd (assign ex_env ex_ctr 0 ex_state))
   \<and> trace (snd (assign ex_env ex_ctr 0 ex_state)) = [ProjectNary 0]"
proof -
  have c: "connected_at ex_ctr 0 ex_state" by (simp add: connected_at_def ex_ctr_def ex_state_def ex_bt_def)
  from assign_steps [OF c, of ex_env] obtain s1 where
    s1: "getNonAssigned ex_ctr s1 = getNonAssigned ex_ctr ex_state - 1"
        "\<not> is_connected ex_ctr (deconnect ex_ctr s1)" by blast
  have "getNonAssigned ex_ctr (snd (assign ex_env ex_ctr 0 ex_state)) = 1
   \<and> \<not> is_connected ex_ctr (snd (assign ex_env ex_ctr 0 ex_state))
   \<and> trace (snd (assign ex_env ex_ctr 0 ex_state)) = [ProjectNary 0]
   \<and> getNonAssigned ex_ctr ex_state = 2"
    by code_simp
  with s1 show ?thesis by simp
qed

text \<open>The claim as stated fails under strong duality: with two of three scope variables
  still unassigned (at most \<^verbatim>\<open>NARYPROJECTIONSIZE\<close>) and the constraint not universal,
  \<^verbatim>\<open>assign\<close> propagates and leaves the constraint connected; it does not project.\<close>

theorem assign_strong_duality_counterexample:
  "connected_at ex_ctr_sd 0 ex_state_sd
   \<and> getNonAssigned ex_ctr_sd (snd (assign ex_env ex_ctr_sd 0 ex_state_sd)) = 2
   \<and> 2 \<le> NARYPROJECTIONSIZE
   \<and> \<not> universal ex_ctr_sd (snd (assign ex_env ex_ctr_sd 0 ex_state_sd))
   \<and> is_connected ex_ctr_sd (snd (assign ex_env ex_ctr_sd 0 ex_state_sd))
   \<and> trace (snd (assign ex_env ex_ctr_sd 0 ex_state_sd))
       = [Revise 0, EnforceUb 1, EnforceUb 2, Assigns 0, Propagate 1, Propagate 2]"
  by code_simp

subsection \<open>The clause loop finds tautologies\<close>

lemma scan_le: "scan xs x \<le> length xs"
  by (induction xs) auto

lemma scan_hit: "scan xs x < length xs \<Longrightarrow> xs ! scan xs x = x"
  by (induction xs) (auto split: if_splits)

lemma scan_miss: "\<not> scan xs x < length xs \<Longrightarrow> x \<notin> set xs"
  by (induction xs) (auto split: if_splits)

lemma store_at_nth_below: "k < i \<Longrightarrow> i \<le> length xs \<Longrightarrow> store_at xs i x ! k = xs ! k"
  by (auto simp: store_at_def nth_append)

lemma store_at_nth_at: "i \<le> length xs \<Longrightarrow> store_at xs i x ! i = x"
  by (auto simp: store_at_def nth_append)

lemma store_at_length: "i \<le> length xs \<Longrightarrow> i < length (store_at xs i x)"
  by (auto simp: store_at_def)

lemma store_at_take: "i \<le> length xs \<Longrightarrow> take i (store_at xs i x) = take i xs"
  by (auto simp: store_at_def)

lemma store_at_take_Suc: "i \<le> length xs \<Longrightarrow> take (Suc i) (store_at xs i x) = take i xs @ [x]"
  by (auto simp: store_at_def take_Suc_conv_app_nth)

lemma add_literal_tautology_stays: "tautology c \<Longrightarrow> tautology (add_literal j c)"
  by (simp add: add_literal_def)

lemma add_literal_inv:
  assumes inv: "clause_inv c seen" and j: "j \<noteq> 0"
  shows "clause_inv (add_literal j c) (insert j seen)"
proof (cases "tautology c")
  case True
  with inv show ?thesis by (simp add: add_literal_def clause_inv_def)
next
  case nt: False
  define a where "a = arity c"
  define v where "v = nat (\<bar>j\<bar> - 1)"
  define b :: nat where "b = (if j > 0 then 0 else 1)"
  define si where "si = store_at (scopeIndex c) a v"
  define tp where "tp = store_at (tup c) a b"
  define k where "k = scan (take a si) (si ! a)"
  from inv have len: "a \<le> length (scopeIndex c)" "a \<le> length (tup c)"
    and dist: "distinct (take a (scopeIndex c))"
    and rec: "\<forall>x \<in> seen. \<exists>k < a. scopeIndex c ! k = nat (\<bar>x\<bar> - 1)
                                     \<and> tup c ! k = (if x > 0 then 0 else 1)"
    using nt by (auto simp: clause_inv_def a_def)
  have si_a: "si ! a = v" and tp_a: "tp ! a = b"
    using len by (simp_all add: si_def tp_def store_at_nth_at)
  have si_below: "\<And>i. i < a \<Longrightarrow> si ! i = scopeIndex c ! i"
    and tp_below: "\<And>i. i < a \<Longrightarrow> tp ! i = tup c ! i"
    using len by (simp_all add: si_def tp_def store_at_nth_below)
  have tk: "take a si = take a (scopeIndex c)" using len by (simp add: si_def store_at_take)
  have la: "a < length si" "a < length tp" using len by (simp_all add: si_def tp_def store_at_length)
  have lt: "length (take a si) = a" using la by simp
  have res: "add_literal j c =
      (if k < a then
              (if tp ! k \<noteq> tp ! a
               then c\<lparr>scopeIndex := si, tup := tp, tautology := True\<rparr>
               else c\<lparr>scopeIndex := si, tup := tp\<rparr>)
            else c\<lparr>scopeIndex := si, tup := tp, arity := Suc a\<rparr>)"
    using nt by (simp add: add_literal_def Let_def a_def v_def b_def si_def tp_def k_def)
  show ?thesis
  proof (cases "k < a")
    case False
    then have "si ! a \<notin> set (take a si)" using scan_miss[of "take a si" "si ! a"] lt by (simp add: k_def)
    then have fresh: "v \<notin> set (take a (scopeIndex c))" by (simp add: si_a tk)
    have tks: "take (Suc a) si = take a (scopeIndex c) @ [v]"
      using len by (simp add: si_def store_at_take_Suc)
    have "\<forall>x \<in> insert j seen. \<exists>k < Suc a. si ! k = nat (\<bar>x\<bar> - 1) \<and> tp ! k = (if x > 0 then 0 else 1)"
    proof
      fix x assume "x \<in> insert j seen"
      then show "\<exists>k < Suc a. si ! k = nat (\<bar>x\<bar> - 1) \<and> tp ! k = (if x > 0 then 0 else 1)"
      proof
        assume "x = j"
        then have "si ! a = nat (\<bar>x\<bar> - 1) \<and> tp ! a = (if x > 0 then 0 else 1)"
          by (simp add: si_a tp_a v_def b_def)
        then show ?thesis by blast
      next
        assume "x \<in> seen"
        with rec obtain i where "i < a" "scopeIndex c ! i = nat (\<bar>x\<bar> - 1)"
          "tup c ! i = (if x > 0 then 0 else 1)" by blast
        then have "i < Suc a \<and> si ! i = nat (\<bar>x\<bar> - 1) \<and> tp ! i = (if x > 0 then 0 else 1)"
          by (simp add: si_below tp_below)
        then show ?thesis by blast
      qed
    qed
    with False res la dist fresh tks show ?thesis
      by (simp add: clause_inv_def)
  next
    case True
    have hit: "si ! k = v"
      using scan_hit[of "take a si" "si ! a"] True lt by (simp add: k_def si_a)
    show ?thesis
    proof (cases "tp ! k \<noteq> tp ! a")
      case diff: True
      with True res la dist tk show ?thesis by (simp add: clause_inv_def a_def)
    next
      case False
      then have same: "tp ! k = b" by (simp add: tp_a)
      have "\<forall>x \<in> insert j seen. \<exists>k < a. si ! k = nat (\<bar>x\<bar> - 1) \<and> tp ! k = (if x > 0 then 0 else 1)"
      proof
        fix x assume "x \<in> insert j seen"
        then show "\<exists>k < a. si ! k = nat (\<bar>x\<bar> - 1) \<and> tp ! k = (if x > 0 then 0 else 1)"
        proof
          assume "x = j"
          with True hit same have "k < a \<and> si ! k = nat (\<bar>x\<bar> - 1) \<and> tp ! k = (if x > 0 then 0 else 1)"
            by (simp add: v_def b_def)
          then show ?thesis by blast
        next
          assume "x \<in> seen"
          with rec obtain i where "i < a" "scopeIndex c ! i = nat (\<bar>x\<bar> - 1)"
            "tup c ! i = (if x > 0 then 0 else 1)" by blast
          then have "i < a \<and> si ! i = nat (\<bar>x\<bar> - 1) \<and> tp ! i = (if x > 0 then 0 else 1)"
            by (simp add: si_below tp_below)
          then show ?thesis by blast
        qed
      qed
      with True False res la dist tk nt show ?thesis
        by (simp add: clause_inv_def a_def)
    qed
  qed
qed

lemma read_literals_Cons:
  "read_literals j (x # xs) c
     = (if x = 0 then Some (c, xs) else read_literals x xs (add_literal x c))"
  by (subst read_literals.simps) (simp add: stream_get_def)

lemma read_literals_returns:
  assumes "read_literals j toks c = Some y"
  shows "toks = [] \<longrightarrow> j = 0"
proof (rule read_literals.raw_induct[where P = "\<lambda>j toks c y. toks = [] \<longrightarrow> j = 0", OF _ assms], goal_cases)
  case (1 f j toks c y)
  show ?case
  proof
    assume e: "toks = []"
    show "j = 0"
    proof (rule ccontr)
      assume nz: "j \<noteq> 0"
      with e 1(2) have "f j [] (add_literal j c) = Some y" by (simp add: stream_get_def)
      from 1(1)[OF this] nz show False by simp
    qed
  qed
qed

text \<open>On the exhausted stream the loop returns only if no literal has been read.\<close>

lemma read_literals_Nil:
  "read_literals j [] c = (if j = 0 then Some (c, []) else None)"
proof (cases "j = 0")
  case True
  then show ?thesis by (subst read_literals.simps) (simp add: stream_get_def)
next
  case False
  with read_literals_returns[of j "[]" c] show ?thesis
    by (cases "read_literals j [] c") auto
qed

lemma read_literals_code [code]:
  "read_literals j toks c
     = (case toks of
          [] \<Rightarrow> if j = 0 then Some (c, []) else None
        | x # xs \<Rightarrow> if x = 0 then Some (c, xs) else read_literals x xs (add_literal x c))"
proof (cases toks)
  case Nil
  then show ?thesis using read_literals_Nil[of j c] by simp
next
  case (Cons x xs)
  then show ?thesis using read_literals_Cons[of j x xs c] by simp
qed

lemma read_literals_fold:
  "0 \<notin> set ls \<Longrightarrow> read_literals j (ls @ 0 # rest) c = Some (fold add_literal ls c, rest)"
  by (induction ls arbitrary: j c) (simp_all add: read_literals_Cons)

text \<open>A stream that ends inside a clause: the loop does not return. A stream that ends
  before a clause: the iteration reads the empty clause with the unit cost.\<close>

lemma read_literals_unclosed:
  "0 \<notin> set ls \<Longrightarrow> ls \<noteq> [] \<Longrightarrow> read_literals j ls c = None"
proof (induction ls arbitrary: j c)
  case Nil
  then show ?case by simp
next
  case (Cons x ls)
  show ?case
  proof (cases "ls = []")
    case True
    with Cons.prems show ?thesis by (simp add: read_literals_Cons read_literals_Nil)
  next
    case False
    with Cons.prems Cons.IH[of x "add_literal x c"] show ?thesis
      by (simp add: read_literals_Cons)
  qed
qed

lemma read_clause_exhausted:
  "read_clause weighted mult [] w
     = Some (w\<lparr>maxarity := max (maxarity w) 0,
              inclowerbound := inclowerbound w + mult UNIT_COST\<rparr>, [])"
  by (simp add: read_clause_def stream_get_def read_literals_Nil clause_init_def post_clause_def)

lemma fold_add_literal_inv:
  "0 \<notin> set ls \<Longrightarrow> clause_inv c seen \<Longrightarrow> clause_inv (fold add_literal ls c) (seen \<union> set ls)"
proof (induction ls arbitrary: c seen)
  case Nil
  then show ?case by simp
next
  case (Cons j ls)
  from Cons.prems have "clause_inv (add_literal j c) (insert j seen)"
    by (intro add_literal_inv) auto
  from Cons.IH[OF _ this] Cons.prems(1) show ?case by simp
qed

lemma clause_inv_opposite:
  assumes inv: "clause_inv c seen" and l: "l \<in> seen" "- l \<in> seen" "l \<noteq> 0"
  shows "tautology c"
proof (rule ccontr)
  assume nt: "\<not> tautology c"
  from inv nt l obtain k1 k2 where
    k1: "k1 < arity c" "scopeIndex c ! k1 = nat (\<bar>l\<bar> - 1)" "tup c ! k1 = (if l > 0 then 0 else 1)" and
    k2: "k2 < arity c" "scopeIndex c ! k2 = nat (\<bar>- l\<bar> - 1)" "tup c ! k2 = (if - l > 0 then 0 else 1)"
    unfolding clause_inv_def by blast
  from inv have d: "distinct (take (arity c) (scopeIndex c))" and len: "arity c \<le> length (scopeIndex c)"
    by (simp_all add: clause_inv_def)
  from k1 k2 have eq: "take (arity c) (scopeIndex c) ! k1 = take (arity c) (scopeIndex c) ! k2" by simp
  from k1(1) k2(1) len have b: "k1 < length (take (arity c) (scopeIndex c))"
    "k2 < length (take (arity c) (scopeIndex c))" by simp_all
  from nth_eq_iff_index_eq[OF d b] eq have "k1 = k2" by blast
  with k1(3) k2(3) l(3) show False by (auto split: if_splits)
qed

lemma clause_init_inv: "clause_inv clause_init {}"
  by (simp add: clause_inv_def clause_init_def)

text \<open>
  C9. The WCNF/CNF reader skips tautological clauses: for every clause that contains a
  literal and its negation (such as \<^verbatim>\<open>1 -1 0\<close>), no cost function is posted for the clause
  (the builder's record is unchanged) and reading continues with the next clause, right
  after the clause's closing 0.
\<close>

theorem tautology_skipped:
  assumes "0 \<notin> set ls" and "l \<in> set ls" and "- l \<in> set ls"
  shows "read_clause weighted mult ((if weighted then [c] else []) @ ls @ 0 # rest) w = Some (w, rest)
       \<and> read_clauses (Suc n) weighted mult ((if weighted then [c] else []) @ ls @ 0 # rest) w
           = read_clauses n weighted mult rest w"
proof -
  from assms(1,2) have l0: "l \<noteq> 0" by auto
  from fold_add_literal_inv[OF assms(1) clause_init_inv]
  have "clause_inv (fold add_literal ls clause_init) (set ls)" by simp
  from clause_inv_opposite[OF this assms(2,3) l0]
  have taut: "tautology (fold add_literal ls clause_init)" .
  have "read_clause weighted mult ((if weighted then [c] else []) @ ls @ 0 # rest) w = Some (w, rest)"
    using taut by (simp add: read_clause_def stream_get_def read_literals_fold[OF assms(1)])
  then show ?thesis by simp
qed

theorem tautology_skipped_witness:
  "read_clauses 2 False (\<lambda>c. c) [1, -1, 0, 2, 3, 0]
     \<lparr>posted = [], unaryconstrs = [], inclowerbound = 0, maxarity = 0\<rparr>
   = Some (\<lparr>posted = [PostBinary 1 2 [1, 0, 0, 0]], unaryconstrs = [], inclowerbound = 0, maxarity = 2\<rparr>, [])"
proof -
  have "read_clauses (Suc 1) False (\<lambda>c. c) ((if False then [0] else []) @ [1, -1] @ 0 # [2, 3, 0])
     \<lparr>posted = [], unaryconstrs = [], inclowerbound = 0, maxarity = 0\<rparr>
    = read_clauses 1 False (\<lambda>c. c) [2, 3, 0]
     \<lparr>posted = [], unaryconstrs = [], inclowerbound = 0, maxarity = 0\<rparr>"
    using tautology_skipped [of "[1, -1]" 1 False "\<lambda>c. c" 0 "[2, 3, 0]"
       "\<lparr>posted = [], unaryconstrs = [], inclowerbound = 0, maxarity = 0\<rparr>" 1]
    by simp
  moreover have "read_clauses 1 False (\<lambda>c. c) [2, 3, 0]
     \<lparr>posted = [], unaryconstrs = [], inclowerbound = 0, maxarity = 0\<rparr>
     = Some (\<lparr>posted = [PostBinary 1 2 [1, 0, 0, 0]], unaryconstrs = [], inclowerbound = 0, maxarity = 2\<rparr>, [])"
    by code_simp
  ultimately show ?thesis by (simp add: numeral_2_eq_2)
qed

subsection \<open>enforceUB in closed form\<close>

lemma add_slack: "(if (0::int) < max (max 0 d) x then b + max (max 0 d) x else b) = b + max (max 0 d) x"
  by auto

lemma enforceUB_closed_form:
  "enforceUB g bound s =
     (if bound_overflows g bound s then Inl ExitFailure
      else (case deltaUbS g of
              None \<Rightarrow> Inr (reader_updateUb (effective_ub g bound s) s)
            | Some d \<Rightarrow>
                Inr (reader_updateUb (effective_ub g bound s + slack g bound s)
                       (s\<lparr>deltaUbAbsolute := max 0 d, deltaUb := slack g bound s\<rparr>))))"
proof (cases "bound_overflows g bound s")
  case True
  then show ?thesis
    by (simp add: enforceUB_def Let_def bound_overflows_def shifted_unscaled_def not_le)
next
  case False
  then have ok: "of_int (shifted_unscaled g bound s)
        \<le> (of_int (MAX_COST g - w_negCost s) / \<bar>costMultiplier g\<bar> :: real)"
    by (simp add: bound_overflows_def not_less)
  have b3: "(case externalUB g of None \<Rightarrow> (if shifted_unscaled g bound s < MIN_COST then MIN_COST
                       else to_cost (of_int bound * costMultiplier g + of_int (w_negCost s)))
            | Some x \<Rightarrow> min (if shifted_unscaled g bound s < MIN_COST then MIN_COST
                       else to_cost (of_int bound * costMultiplier g + of_int (w_negCost s))) (x + w_negCost s))
         = effective_ub g bound s"
    unfolding effective_ub_def file_ub_def MIN_COST_def by (simp split: option.splits)
  have e: "enforceUB g bound s =
       (let b3 = effective_ub g bound s
        in (case deltaUbS g of
                  None \<Rightarrow> Inr (reader_updateUb b3 s)
                | Some d \<Rightarrow>
                    (let da = max MIN_COST d;
                         du = max da (to_cost (deltaUbRelativeGap g * of_int (min b3 (w_ub s))));
                         b4 = (if du > MIN_COST then b3 + du else b3)
                     in Inr (reader_updateUb b4 (s\<lparr>deltaUbAbsolute := da, deltaUb := du\<rparr>)))))"
    unfolding enforceUB_def b3[symmetric] using ok
    by (simp add: Let_def shifted_unscaled_def)
  show ?thesis
    unfolding e using False
    by (simp add: Let_def slack_def MIN_COST_def add_slack split: option.splits)
qed


lemma ex_max_run:
  "enforceUB ex_reader_max 100 ex_rstate_max = Inr (ex_rstate_max\<lparr>deltaUbAbsolute := 0, deltaUb := 0, w_ub := 0\<rparr>)"
  by (simp add: enforceUB_def ex_reader_max_def ex_rstate_max_def ex_reader_def ex_rstate_def
      to_cost_def reader_updateUb_def MIN_COST_def Let_def)

text \<open>
  C8 (as amended). After the last cost function of a CFN file is loaded, \<^verbatim>\<open>enforceUB\<close>
  scales the file bound by the cost multiplier and shifts it by \<open>negCost\<close> (a negative
  shifted bound is replaced by zero, an overflowing bound is rejected with an error),
  lowers the result to the external upper bound shifted by \<open>negCost\<close> when one is given,
  adds, when the option string \<^verbatim>\<open>deltaUbS\<close> is set, the slack
  \<open>deltaUb = max(deltaUbAbsolute, deltaUbRelativeGap \<sqdot> min(that bound, current ub))\<close>, and
  installs the sum clamped to at most the existing upper bound. The current upper bound
  enters through the clamp and the relative gap only: it is neither scaled nor shifted.
\<close>

theorem enforceUB_working_ub:
  "(enforceUB g bound s = Inl ExitFailure) = bound_overflows g bound s
   \<and> (\<forall>s'. enforceUB g bound s = Inr s' \<longrightarrow>
          w_ub s' = min (w_ub s) (effective_ub g bound s + slack g bound s)
          \<and> w_ub s' \<le> w_ub s \<and> w_negCost s' = w_negCost s)"
proof (cases "bound_overflows g bound s")
  case True
  then show ?thesis by (simp add: enforceUB_closed_form)
next
  case False
  show ?thesis
  proof (cases "deltaUbS g")
    case None
    with False show ?thesis
      by (auto simp: enforceUB_closed_form reader_updateUb_def slack_def)
  next
    case (Some d)
    with False show ?thesis
      by (auto simp: enforceUB_closed_form reader_updateUb_def)
  qed
qed

theorem enforceUB_working_ub_witness:
  "min (w_ub ex_rstate_max)
       (effective_ub ex_reader_max 100 ex_rstate_max + slack ex_reader_max 100 ex_rstate_max) = 0
   \<and> \<not> bound_overflows ex_reader_max 100 ex_rstate_max"
  using enforceUB_working_ub [of ex_reader_max 100 ex_rstate_max] ex_max_run
  by simp


text \<open>The claim as stated fails for a maximisation file (multiplier \<open>-1\<close>) with file bound
  100, current upper bound 10 and shift 15: the code installs 0, the stated formula
  (minimum first, then scale and shift) gives 5.\<close>

theorem enforceUB_spec_formula_counterexample:
  "map_sum id w_ub (enforceUB ex_reader_max 100 ex_rstate_max) = Inr 0
   \<and> spec_working_ub ex_reader_max 100 ex_rstate_max = 5"
  by (simp add: enforceUB_def spec_working_ub_def ex_reader_max_def ex_rstate_max_def ex_reader_def
      ex_rstate_def to_cost_def reader_updateUb_def MIN_COST_def Let_def)

subsection \<open>Tables of arity up to three are shifted to non-negative costs\<close>

lemma full_loop_post:
  "full_loop g ubv n toks mc acc = Inr (mc', cv, rest) \<Longrightarrow>
   length cv = length acc + n \<and> mc' \<le> mc \<and> take (length acc) cv = acc
   \<and> (\<forall>c \<in> set (drop (length acc) cv). mc' \<le> c)"
proof (induction n arbitrary: toks mc acc)
  case 0
  then show ?case by simp
next
  case (Suc n)
  from Suc.prems obtain c0 where c0: "decimalToCost g (case toks of [] \<Rightarrow> [] | t # ts \<Rightarrow> t) = Some c0"
    by (auto split: option.splits)
  define c where "c = rescale g ubv c0"
  from Suc.prems c0 have "full_loop g ubv n (tl toks) (min c mc) (acc @ [c]) = Inr (mc', cv, rest)"
    by (simp add: Let_def c_def)
  from Suc.IH[OF this] have ih: "length cv = length acc + Suc n" "mc' \<le> min c mc"
    "take (Suc (length acc)) cv = acc @ [c]" "\<forall>x \<in> set (drop (Suc (length acc)) cv). mc' \<le> x"
    by simp_all
  from ih(3) have tk: "take (length acc) cv = acc"
    by (metis append_eq_conv_conj length_append_singleton take_all_iff take_take min.absorb1 le_SucI order_refl butlast_snoc butlast_take diff_Suc_1 ih(1) le_add1)
  from ih(1,3) have nth: "cv ! length acc = c"
    by (metis lessI nth_append_length nth_take)
  have "drop (length acc) cv = c # drop (Suc (length acc)) cv"
    using ih(1) nth Cons_nth_drop_Suc[of "length acc" cv] by simp
  with ih tk show ?case by auto
qed

lemma filter_update_count:
  assumes "i < length xs" "\<not> P (xs ! i)" "P x"
  shows "length (filter P (xs[i := x])) = Suc (length (filter P xs))"
proof -
  have xs: "xs = take i xs @ xs ! i # drop (Suc i) xs" using assms(1) by (simp add: id_take_nth_drop)
  have up: "xs[i := x] = take i xs @ x # drop (Suc i) xs" using assms(1) by (simp add: upd_conv_take_nth_drop)
  have "length (filter P xs) = length (filter P (take i xs)) + length (filter P (drop (Suc i) xs))"
    using assms(2) by (subst xs) simp
  moreover have "length (filter P (xs[i := x])) = length (filter P (take i xs)) + Suc (length (filter P (drop (Suc i) xs)))"
    using assms(3) by (subst up) simp
  ultimately show ?thesis by simp
qed

lemma filter_all_count:
  assumes "length xs \<le> length (filter P xs)" and "x \<in> set xs"
  shows "P x"
proof (rule ccontr)
  assume "\<not> P x"
  with assms(2) have "x \<in> set (filter (\<lambda>y. \<not> P y) xs)" by simp
  then have pos: "0 < length (filter (\<lambda>y. \<not> P y) xs)" by (cases "filter (\<lambda>y. \<not> P y) xs") auto
  have "length (filter P xs) + length (filter (\<lambda>y. \<not> P y) xs) = length xs"
    by (rule sum_length_filter_compl)
  with pos assms(1) show False by linarith
qed

lemma getValueIdx_range:
  assumes "\<forall>v t i. varValNameToIdx g v t = Some i \<longrightarrow> i < getDomainInitSize g v"
    and "getValueIdx g v token = Inr i"
  shows "i < getDomainInitSize g v"
  using assms by (auto simp: getValueIdx_def split: if_splits option.splits)

lemma horner_step:
  assumes "(t::nat) < p" "v < d"
  shows "t * d + v < p * d"
proof -
  from assms(1) have "Suc t \<le> p" by simp
  then have "Suc t * d \<le> p * d" by (rule mult_le_mono1)
  with assms(2) show ?thesis by simp
qed

lemma tuple_loop_inv:
  assumes names: "\<forall>v t i. varValNameToIdx g v t = Some i \<longrightarrow> i < getDomainInitSize g v"
  shows "table_inv g scp d l \<Longrightarrow> tuple_loop g scp d ubv toks l = Inr (l', rest) \<Longrightarrow> table_inv g scp d l'"
proof (induction toks arbitrary: l)
  case Nil
  then show ?case by simp
next
  case (Cons token toks)
  show ?case
  proof (cases "isCBrace token")
    case True
    with Cons.prems show ?thesis by simp
  next
    case nb: False
    show ?thesis
    proof (cases "scopeIdx l = length scp")
      case True
      from Cons.prems(2) nb True obtain c0 where c0: "decimalToCost g token = Some c0"
        by (auto split: option.splits)
      define c where "c = rescale g ubv c0"
      from Cons.prems(2) nb True c0 have dflt: "costVector l ! tableIdx l = d"
        by (auto simp: Let_def split: if_splits)
      define l1 where "l1 = l\<lparr>costVector := (costVector l)[tableIdx l := c],
                           nbCostInserted := Suc (nbCostInserted l),
                           minCost := min c (minCost l),
                           scopeIdx := 0, tableIdx := 0\<rparr>"
      from Cons.prems(2) nb True c0 dflt have run: "tuple_loop g scp d ubv toks l1 = Inr (l', rest)"
        by (simp add: Let_def c_def l1_def)
      from Cons.prems(1) True have inv: "length (costVector l) = costVecSize g scp"
        "tableIdx l < costVecSize g scp"
        "\<forall>x \<in> set (costVector l). x = d \<or> minCost l \<le> x"
        "minCost l \<le> d \<or> length (filter (\<lambda>c. c \<noteq> d) (costVector l)) = nbCostInserted l"
        by (simp_all add: table_inv_def costVecSize_def)
      have a: "\<forall>x \<in> set (costVector l1). x = d \<or> minCost l1 \<le> x"
      proof
        fix x assume "x \<in> set (costVector l1)"
        then have "x = c \<or> x \<in> set (costVector l)"
          using set_update_subset_insert[of "costVector l" "tableIdx l" c] by (auto simp: l1_def)
        with inv(3) show "x = d \<or> minCost l1 \<le> x" by (auto simp: l1_def)
      qed
      have b: "minCost l1 \<le> d \<or> length (filter (\<lambda>c. c \<noteq> d) (costVector l1)) = nbCostInserted l1"
      proof (cases "minCost l1 \<le> d")
        case True
        then show ?thesis by simp
      next
        case False
        then have cd: "c \<noteq> d" "\<not> minCost l \<le> d" by (auto simp: l1_def)
        with inv(4) have cnt: "length (filter (\<lambda>c. c \<noteq> d) (costVector l)) = nbCostInserted l" by simp
        have "length (filter (\<lambda>c. c \<noteq> d) ((costVector l)[tableIdx l := c]))
              = Suc (length (filter (\<lambda>c. c \<noteq> d) (costVector l)))"
          using inv(1,2) dflt cd(1) by (intro filter_update_count) simp_all
        with cnt show ?thesis by (simp add: l1_def)
      qed
      have "table_inv g scp d l1"
        using a b inv(1) by (simp add: table_inv_def l1_def)
      from Cons.IH[OF this run] show ?thesis .
    next
      case False
      with Cons.prems(1) have lt: "scopeIdx l < length scp" by (simp add: table_inv_def)
      from Cons.prems(2) nb False obtain valueIdx where
        vi: "getValueIdx g (scp ! scopeIdx l) token = Inr valueIdx"
        by (auto split: sum.splits)
      note rng = getValueIdx_range[OF names vi]
      define l1 where "l1 = l\<lparr>tableIdx := (if scopeIdx l \<noteq> 0
                                then tableIdx l * getDomainInitSize g (scp ! scopeIdx l)
                                else tableIdx l) + valueIdx,
                  scopeIdx := Suc (scopeIdx l)\<rparr>"
      from Cons.prems(2) nb False vi have run: "tuple_loop g scp d ubv toks l1 = Inr (l', rest)"
        by (simp add: l1_def)
      from Cons.prems(1) have tb: "tableIdx l < prod_list (map (getDomainInitSize g) (take (scopeIdx l) scp))"
        by (simp add: table_inv_def)
      have tk: "take (Suc (scopeIdx l)) scp = take (scopeIdx l) scp @ [scp ! scopeIdx l]"
        using lt by (simp add: take_Suc_conv_app_nth)
      have "tableIdx l1 < prod_list (map (getDomainInitSize g) (take (Suc (scopeIdx l)) scp))"
      proof (cases "scopeIdx l = 0")
        case True
        with tb have "tableIdx l = 0" by simp
        with True rng tk show ?thesis by (simp add: l1_def)
      next
        case nz: False
        from horner_step[OF tb rng] nz tk show ?thesis by (simp add: l1_def)
      qed
      with Cons.prems(1) lt have "table_inv g scp d l1"
        by (simp add: table_inv_def l1_def)
      from Cons.IH[OF this run] show ?thesis .
    qed
  qed
qed

text \<open>Whatever the file lists, a table of arity up to three is stored with non-negative
  costs and the subtracted minimum is taken from \<open>negCost\<close>; the value names are assumed to
  map into the domains.\<close>

lemma table_costs_shifted:
  assumes names: "\<forall>v t i. varValNameToIdx g v t = Some i \<longrightarrow> i < getDomainInitSize g v"
    and run: "readFunctionCostTable g scp all d0 toks s = Inr (cv, mc, s', rest)"
  shows "(\<forall>c \<in> set cv. 0 \<le> c) \<and> length cv = costVecSize g scp
       \<and> w_negCost s' = w_negCost s - mc"
proof (cases all)
  case True
  from run True obtain m0 cv0 rest0 where
    fl: "full_loop g (w_ub s) (costVecSize g scp) toks (MAX_COST g) [] = Inr (m0, cv0, rest0)"
    by (auto simp: readFunctionCostTable_def Let_def split: sum.splits)
  from run True fl have res: "cv = map (\<lambda>c. c - m0) cv0" "mc = m0" "s' = s\<lparr>w_negCost := w_negCost s - m0\<rparr>"
    by (auto simp: readFunctionCostTable_def Let_def split: sum.splits)
  from full_loop_post[OF fl] res show ?thesis by auto
next
  case False
  define d where "d = rescale g (w_ub s) d0"
  define l0 where "l0 = \<lparr>scopeIdx = 0, tableIdx = 0, nbCostInserted = 0, minCost = MAX_COST g,
                          costVector = replicate (costVecSize g scp) d\<rparr>"
  from run False obtain l rest0 where
    tl: "tuple_loop g scp d (w_ub s) toks l0 = Inr (l, rest0)"
    by (auto simp: readFunctionCostTable_def Let_def d_def l0_def split: sum.splits prod.splits)
  define m0 where "m0 = (if nbCostInserted l < costVecSize g scp then min d (minCost l) else minCost l)"
  from run False tl have res: "cv = map (\<lambda>c. c - m0) (costVector l)" "mc = m0"
    "s' = s\<lparr>w_negCost := w_negCost s - m0\<rparr>"
    by (auto simp: readFunctionCostTable_def Let_def d_def l0_def m0_def split: sum.splits)
  have "table_inv g scp d l0" by (simp add: table_inv_def l0_def)
  from tuple_loop_inv[OF names this tl] have inv: "length (costVector l) = costVecSize g scp"
    "\<forall>x \<in> set (costVector l). x = d \<or> minCost l \<le> x"
    "minCost l \<le> d \<or> length (filter (\<lambda>c. c \<noteq> d) (costVector l)) = nbCostInserted l"
    by (simp_all add: table_inv_def)
  have "\<forall>x \<in> set (costVector l). m0 \<le> x"
  proof
    fix x assume x: "x \<in> set (costVector l)"
    show "m0 \<le> x"
    proof (cases "nbCostInserted l < costVecSize g scp")
      case True
      with inv(2) x show ?thesis by (auto simp: m0_def)
    next
      case full: False
      show ?thesis
      proof (cases "minCost l \<le> d")
        case True
        with inv(2) x full show ?thesis by (auto simp: m0_def)
      next
        case False
        with inv(3) have "length (filter (\<lambda>c. c \<noteq> d) (costVector l)) = nbCostInserted l" by simp
        with full inv(1) have "length (costVector l) \<le> length (filter (\<lambda>c. c \<noteq> d) (costVector l))" by simp
        from filter_all_count[OF this x] have "x \<noteq> d" .
        with inv(2) x full show ?thesis by (auto simp: m0_def)
      qed
    qed
  qed
  with res inv(1) show ?thesis by auto
qed

text \<open>At a cardinality of exactly \<open>ULONG_MAX + 1\<close> the test finds no tuple missing: the
  product wraps to 0.\<close>

lemma tuples_missing_wrap:
  "int (costVecSize g scp) = ULONG_MAX + 1 \<Longrightarrow> \<not> tuples_missing g scp n"
  by (simp add: tuples_missing_def ULONG_MAX_def)

text \<open>
  C7. The claim: for every cost table read by the CFN parser the stored costs are the
  input costs shifted down by the table's minimum, so every stored entry is non-negative,
  and \<open>negCost\<close> is decreased by that minimum. The code does not do this for an n-ary
  table given as a full list of costs: it lowers \<open>negCost\<close> by the minimum but posts the
  costs unshifted. Sixteen costs 3 over four Boolean variables are posted as sixteen
  tuples of cost 3 with \<open>negCost\<close> lowered by 3. The sparse path of the same function
  subtracts the minimum (default cost 3 and one tuple of cost 5 are posted as default 0
  and cost 2).
\<close>

theorem nary_full_table_not_shifted:
  "readNaryCostFunction ex_reader [0, 1, 2, 3] True 0 (replicate 16 ''3'' @ [''}'', ''}'']) ex_rstate
     = Inr (ex_rstate\<lparr>nary_posted := [NaryFn [0, 1, 2, 3] 0
                                         (map (\<lambda>t. (t, 3)) (lex_tuples ex_reader [0, 1, 2, 3]))],
                      w_negCost := - 3\<rparr>, [])
   \<and> readNaryCostFunction ex_reader [0, 1, 2, 3] False 3 [''0'', ''0'', ''0'', ''0'', ''5'', ''}'', ''}''] ex_rstate
     = Inr (ex_rstate\<lparr>nary_posted := [NaryFn [0, 1, 2, 3] 0 [([0, 0, 0, 0], 2)]],
                      w_negCost := - 3\<rparr>, [])"
  by code_simp

end
